theory Spec2Isabelle
  imports Main
begin

section \<open>Dynamic values and cleaners\<close>

text \<open>
  The healing cleaners take an untyped JavaScript value (\<open>raw: unknown\<close>) and return a
  container of cleaned values. A value is one of the following.
  \<^item> An array is the list of its elements. A hole of a fallback array stands as
    \<open>undefined\<close>, which is what \<open>fallback[i]\<close> and a spread into an array read there; a raw
    array is dense.
  \<^item> An object is a plain object: the list of its own enumerable string-keyed
    properties in the order \<open>Object.keys\<close> reports them, with \<open>Object.prototype\<close> as its
    prototype. An array has \<open>Array.prototype\<close> as its prototype.
  \<^item> \<open>Fun name\<close> is a built-in function, which a property read finds on a prototype.
  \<^item> Numbers are integers here: the cleaners pass values on and never compute with
    them.
\<close>

datatype jsval =
    Undefined
  | Null
  | Bool bool
  | Num int
  | Str string
  | Arr "jsval list"
  | Obj "(string \<times> jsval) list"
  | Fun string

text \<open>A value thrown by a cleaner. The combinators catch every thrown value alike.\<close>

datatype error = TypeError string | CleanerError string

text \<open>\<open>Cleaner<T>\<close>: a function from a raw value that returns a value or throws.\<close>

type_synonym cleaner = "jsval \<Rightarrow> error + jsval"

type_synonym props = "(string \<times> jsval) list"

definition nullish :: "jsval \<Rightarrow> bool" where
  \<comment> \<open>\<open>v == null\<close>: true of \<open>null\<close> and \<open>undefined\<close> only.\<close>
  "nullish v = (v = Undefined \<or> v = Null)"

definition is_function :: "jsval \<Rightarrow> bool" where
  \<comment> \<open>\<open>typeof v === 'function'\<close>\<close>
  "is_function v = (case v of Fun name \<Rightarrow> True | _ \<Rightarrow> False)"

definition is_array :: "jsval \<Rightarrow> bool" where
  \<comment> \<open>\<open>Array.isArray(raw)\<close>\<close>
  "is_array raw = (case raw of Arr xs \<Rightarrow> True | _ \<Rightarrow> False)"

definition is_object :: "jsval \<Rightarrow> bool" where
  \<comment> \<open>the negation of \<open>typeof raw !== 'object' || raw == null\<close>; \<open>typeof\<close> of an array
      is \<open>'object'\<close> too, \<open>typeof\<close> of a function is \<open>'function'\<close>.\<close>
  "is_object raw = (case raw of Arr xs \<Rightarrow> True | Obj kvs \<Rightarrow> True | _ \<Rightarrow> False)"

definition js_index :: "jsval list \<Rightarrow> nat \<Rightarrow> jsval" where
  \<comment> \<open>\<open>raw[i]\<close> on an array: \<open>undefined\<close> past the end.\<close>
  "js_index xs i = (if i < length xs then xs ! i else Undefined)"

definition fallback_at :: "jsval list option \<Rightarrow> nat \<Rightarrow> jsval" where
  \<comment> \<open>\<open>fallback?.[i]\<close>: \<open>undefined\<close> when the fallback argument was not given.\<close>
  "fallback_at fallback i = (case fallback of None \<Rightarrow> Undefined | Some fb \<Rightarrow> js_index fb i)"

definition asMaybe :: "cleaner \<Rightarrow> jsval \<Rightarrow> cleaner" where
  \<comment> \<open>Modelled from the spec: \<open>asMaybe\<close> is imported from the \<open>cleaners\<close> package, which
      is not part of the sources. Section 6: given a validator and a default, it returns
      a validator that substitutes the default on failure. The case "no fallback for
      this slot" of section 4.1 is decided by the callers, which test
      \<open>fallback?.[i] == null\<close> before they call \<open>asMaybe\<close>.\<close>
  "asMaybe cleaner fallback raw =
     (case cleaner raw of Inr v \<Rightarrow> Inr v | Inl e \<Rightarrow> Inr fallback)"

section \<open>asHealingArray\<close>

text \<open>
  The single-argument implementation: a \<open>for ... of\<close> loop over the raw array that
  pushes every element the cleaner accepts and swallows what the cleaner throws.
\<close>

fun asHealingArrayCleaner_loop :: "cleaner \<Rightarrow> jsval list \<Rightarrow> jsval list \<Rightarrow> error + jsval list" where
  "asHealingArrayCleaner_loop cleaner [] out = Inr out"
| "asHealingArrayCleaner_loop cleaner (item # items) out =
     (case cleaner item of
        Inr v \<Rightarrow> asHealingArrayCleaner_loop cleaner items (out @ [v])
      | Inl e \<Rightarrow> asHealingArrayCleaner_loop cleaner items out)"

definition asHealingArrayCleaner :: "cleaner \<Rightarrow> cleaner" where
  "asHealingArrayCleaner cleaner raw =
     (case raw of
        Arr xs \<Rightarrow> map_sum id Arr (asHealingArrayCleaner_loop cleaner xs [])
      | _ \<Rightarrow> Inr (Arr []))"

text \<open>
  The generalised implementation with the optional fallback list: an indexed loop
  up to \<open>Math.max(raw.length, fallback?.length ?? 0)\<close>.
\<close>

function asMaybeArray_loop ::
  "cleaner \<Rightarrow> jsval list option \<Rightarrow> jsval list \<Rightarrow> nat \<Rightarrow> nat \<Rightarrow> jsval list \<Rightarrow> error + jsval list" where
  "asMaybeArray_loop cleaner fallback raw len i out =
     (if i < len then
        (if nullish (fallback_at fallback i) then
           (case cleaner (js_index raw i) of
              Inr v \<Rightarrow> asMaybeArray_loop cleaner fallback raw len (Suc i) (out @ [v])
            | Inl e \<Rightarrow> asMaybeArray_loop cleaner fallback raw len (Suc i) out)
         else
           (case asMaybe cleaner (fallback_at fallback i) (js_index raw i) of
              Inr v \<Rightarrow> asMaybeArray_loop cleaner fallback raw len (Suc i) (out @ [v])
            | Inl e \<Rightarrow> Inl e))
      else Inr out)"
  by pat_completeness auto
termination
  by (relation "measure (\<lambda>(cleaner, fallback, raw, len, i, out). len - i)") auto

declare asMaybeArray_loop.simps [simp del]

definition asHealingArray :: "cleaner \<Rightarrow> jsval list option \<Rightarrow> cleaner" where
  "asHealingArray cleaner fallback raw =
     (case raw of
        Arr xs \<Rightarrow>
          map_sum id Arr
            (asMaybeArray_loop cleaner fallback xs
               (max (length xs) (case fallback of None \<Rightarrow> 0 | Some fb \<Rightarrow> length fb)) 0 [])
      | _ \<Rightarrow> Inr (Arr []))"

section \<open>asHealingTuple\<close>

function asMaybeTuple_loop ::
  "cleaner \<Rightarrow> jsval list \<Rightarrow> jsval list \<Rightarrow> nat \<Rightarrow> nat \<Rightarrow> jsval list \<Rightarrow> error + jsval list" where
  "asMaybeTuple_loop cleaner fallback raw len i out =
     (if i < len then
        (case asMaybe cleaner (js_index fallback i) (js_index raw i) of
           Inr v \<Rightarrow> asMaybeTuple_loop cleaner fallback raw len (Suc i) (out @ [v])
         | Inl e \<Rightarrow> Inl e)
      else Inr out)"
  by pat_completeness auto
termination
  by (relation "measure (\<lambda>(cleaner, fallback, raw, len, i, out). len - i)") auto

declare asMaybeTuple_loop.simps [simp del]

definition asHealingTuple :: "cleaner \<Rightarrow> jsval list \<Rightarrow> cleaner" where
  "asHealingTuple cleaner fallback raw =
     (case raw of
        Arr xs \<Rightarrow>
          map_sum id Arr (asMaybeTuple_loop cleaner fallback xs (length fallback) 0 [])
      | _ \<Rightarrow> Inr (Arr fallback))"

section \<open>Objects: own properties in enumeration order\<close>

text \<open>
  \<open>Object.keys\<close> lists the own properties whose key is an array index first, in
  ascending numeric order, and then the other string keys in the order they were
  created. An array index is the canonical decimal string of an integer below
  \<open>2^32 - 1\<close>. Creating a property therefore puts an array-index key at its numeric
  place and any other key at the end.
\<close>

definition digit_value :: "char \<Rightarrow> int option" where
  "digit_value c =
     map_of [(CHR ''0'', 0), (CHR ''1'', 1), (CHR ''2'', 2), (CHR ''3'', 3), (CHR ''4'', 4),
             (CHR ''5'', 5), (CHR ''6'', 6), (CHR ''7'', 7), (CHR ''8'', 8), (CHR ''9'', 9)] c"

fun decimal_value :: "int \<Rightarrow> string \<Rightarrow> int option" where
  "decimal_value acc [] = Some acc"
| "decimal_value acc (c # cs) =
     (case digit_value c of None \<Rightarrow> None | Some d \<Rightarrow> decimal_value (10 * acc + d) cs)"

definition array_index :: "string \<Rightarrow> int option" where
  "array_index key =
     (case key of
        [] \<Rightarrow> None
      | c # cs \<Rightarrow>
          if c = CHR ''0'' \<and> cs \<noteq> [] then None
          else (case decimal_value 0 key of
                  None \<Rightarrow> None
                | Some n \<Rightarrow> if n < 4294967295 then Some n else None))"

definition key_precedes :: "string \<Rightarrow> string \<Rightarrow> bool" where
  \<comment> \<open>a new key \<open>k\<close> is enumerated before the existing key \<open>k'\<close>\<close>
  "key_precedes k k' =
     (case array_index k of
        None \<Rightarrow> False
      | Some i \<Rightarrow> (case array_index k' of None \<Rightarrow> True | Some j \<Rightarrow> i < j))"

fun obj_insert :: "string \<Rightarrow> 'a \<Rightarrow> (string \<times> 'a) list \<Rightarrow> (string \<times> 'a) list" where
  "obj_insert key v [] = [(key, v)]"
| "obj_insert key v ((k, w) # rest) =
     (if key_precedes key k then (key, v) # (k, w) # rest
      else (k, w) # obj_insert key v rest)"

definition obj_set :: "string \<Rightarrow> 'a \<Rightarrow> (string \<times> 'a) list \<Rightarrow> (string \<times> 'a) list" where
  \<comment> \<open>\<open>out[key] = v\<close> for a key other than \<open>'__proto__'\<close>: an existing property keeps its
      place, a new one is created.\<close>
  "obj_set key v kvs =
     (if key \<in> set (map fst kvs)
      then map (\<lambda>(k, w). if k = key then (k, v) else (k, w)) kvs
      else obj_insert key v kvs)"

definition obj_assign :: "(string \<times> 'a) list \<Rightarrow> (string \<times> 'a) list \<Rightarrow> (string \<times> 'a) list" where
  \<comment> \<open>one spread \<open>...source\<close> inside an object literal: every own enumerable property of
      the source is defined on the target, in the source's order. A spread defines an own
      property for the key \<open>'__proto__'\<close> too.\<close>
  "obj_assign target source = fold (\<lambda>(k, v). obj_set k v) source target"

definition wf_keys :: "string list \<Rightarrow> bool" where
  \<comment> \<open>the keys of an object as \<open>Object.keys\<close> can report them\<close>
  "wf_keys ks = (distinct ks \<and> sorted_wrt (\<lambda>a b. \<not> key_precedes b a) ks)"

definition digit_char :: "nat \<Rightarrow> char" where
  "digit_char d = ''0123456789'' ! (d mod 10)"

fun string_of_nat :: "nat \<Rightarrow> string" where
  "string_of_nat n =
     (if n < 10 then [digit_char n] else string_of_nat (n div 10) @ [digit_char (n mod 10)])"

declare string_of_nat.simps [simp del]

definition own_props :: "jsval \<Rightarrow> props" where
  \<comment> \<open>the own enumerable properties of a value that passed the \<open>typeof raw === 'object'\<close>
      guard: the properties of an object; the elements of an array under their indices,
      every index below the length being a property of a dense array.\<close>
  "own_props raw =
     (case raw of
        Obj kvs \<Rightarrow> kvs
      | Arr xs \<Rightarrow> zip (map string_of_nat [0..<length xs]) xs
      | _ \<Rightarrow> [])"

text \<open>
  A property read \<open>o[key]\<close> takes an own property if there is one and goes up the
  prototype chain otherwise. The members of \<open>Object.prototype\<close> and \<open>Array.prototype\<close> are
  functions; \<open>__proto__\<close> is an accessor on \<open>Object.prototype\<close> that returns the prototype,
  an object without enumerable properties.
\<close>

definition object_prototype_keys :: "string list" where
  "object_prototype_keys =
     [''constructor'', ''hasOwnProperty'', ''isPrototypeOf'', ''propertyIsEnumerable'',
      ''toLocaleString'', ''toString'', ''valueOf'', ''__defineGetter__'', ''__defineSetter__'',
      ''__lookupGetter__'', ''__lookupSetter__'']"

definition array_prototype_keys :: "string list" where
  "array_prototype_keys =
     [''constructor'', ''at'', ''concat'', ''copyWithin'', ''entries'', ''every'', ''fill'',
      ''filter'', ''find'', ''findIndex'', ''findLast'', ''findLastIndex'', ''flat'', ''flatMap'',
      ''forEach'', ''includes'', ''indexOf'', ''join'', ''keys'', ''lastIndexOf'', ''map'', ''pop'',
      ''push'', ''reduce'', ''reduceRight'', ''reverse'', ''shift'', ''slice'', ''some'', ''sort'',
      ''splice'', ''toLocaleString'', ''toReversed'', ''toSorted'', ''toSpliced'', ''toString'',
      ''unshift'', ''values'', ''with'']"

definition object_inherited :: "string \<Rightarrow> jsval" where
  \<comment> \<open>what a plain object inherits under a key it does not own\<close>
  "object_inherited key =
     (if key = ''__proto__'' then Obj []
      else if key \<in> set object_prototype_keys then Fun (''Object.prototype.'' @ key)
      else Undefined)"

definition array_inherited :: "string \<Rightarrow> jsval" where
  \<comment> \<open>what an array inherits under a key it does not own\<close>
  "array_inherited key =
     (if key = ''__proto__'' then Arr []
      else if key \<in> set array_prototype_keys then Fun (''Array.prototype.'' @ key)
      else object_inherited key)"

definition js_get :: "jsval \<Rightarrow> string \<Rightarrow> jsval" where
  \<comment> \<open>\<open>raw[key]\<close> on a value that passed the \<open>typeof raw === 'object'\<close> guard; no other value
      is read.\<close>
  "js_get raw key =
     (case raw of
        Obj kvs \<Rightarrow> (case map_of kvs key of None \<Rightarrow> object_inherited key | Some v \<Rightarrow> v)
      | Arr xs \<Rightarrow>
          (case array_index key of
             Some i \<Rightarrow> js_index xs (nat i)
           | None \<Rightarrow> if key = ''length'' then Num (int (length xs)) else array_inherited key)
      | _ \<Rightarrow> Undefined)"

section \<open>asHealingObject\<close>

text \<open>
  \<open>asHealingObject\<close> dispatches on \<open>typeof shape === 'function'\<close>. The two branches
  are modelled as two functions: the key-value mode takes one cleaner and an optional
  fallback object, the shape mode takes an object of cleaners and a fallback object that
  its signature makes mandatory.
\<close>

definition fallback_get :: "props option \<Rightarrow> string \<Rightarrow> jsval" where
  \<comment> \<open>\<open>fallback?.[key]\<close>: \<open>undefined\<close> without a fallback, a property read otherwise\<close>
  "fallback_get fallback key =
     (case fallback of None \<Rightarrow> Undefined | Some fb \<Rightarrow> js_get (Obj fb) key)"

definition inherited_default :: "props \<Rightarrow> string \<Rightarrow> bool" where
  \<comment> \<open>\<open>fallback[key]\<close> finds a member of \<open>Object.prototype\<close>: the fallback has no property
      of its own under the key, and the key names a function of the prototype\<close>
  "inherited_default fallback key =
     (map_of fallback key = None \<and> is_function (object_inherited key))"

definition healing_keys :: "jsval \<Rightarrow> props option \<Rightarrow> string list" where
  \<comment> \<open>\<open>fallback == null ? Object.keys(raw) : Object.keys({ ...raw, ...fallback })\<close>\<close>
  "healing_keys raw fallback =
     (case fallback of
        None \<Rightarrow> map fst (own_props raw)
      | Some fb \<Rightarrow> map fst (obj_assign (obj_assign [] (own_props raw)) fb))"

fun asMaybeObject_loop ::
  "cleaner \<Rightarrow> props option \<Rightarrow> jsval \<Rightarrow> string list \<Rightarrow> props \<Rightarrow> error + props" where
  "asMaybeObject_loop shape fallback raw [] out = Inr out"
| "asMaybeObject_loop shape fallback raw (key # keys) out =
     (if key = ''__proto__'' then asMaybeObject_loop shape fallback raw keys out
      else if nullish (fallback_get fallback key) then
        (case shape (js_get raw key) of
           Inr v \<Rightarrow> asMaybeObject_loop shape fallback raw keys (obj_set key v out)
         | Inl e \<Rightarrow> asMaybeObject_loop shape fallback raw keys out)
      else
        (case asMaybe shape
                (js_get (Obj (case fallback of None \<Rightarrow> [] | Some fb \<Rightarrow> fb)) key)
                (js_get raw key) of
           Inr v \<Rightarrow> asMaybeObject_loop shape fallback raw keys (obj_set key v out)
         | Inl e \<Rightarrow> Inl e))"

definition asMaybeObject :: "cleaner \<Rightarrow> props option \<Rightarrow> cleaner" where
  "asMaybeObject shape fallback raw =
     (if \<not> is_object raw then Inr (Obj [])
      else map_sum id Obj
             (asMaybeObject_loop shape fallback raw (healing_keys raw fallback) []))"

text \<open>
  The shape mode. The shape is given as its fields in the order the caller declares
  them; \<open>{ ...shape }\<close> and \<open>Object.keys(shape)\<close> hold them in enumeration order.
  \<open>asObject\<close> comes from the \<open>cleaners\<close> package.
\<close>

type_synonym cleaner_shape = "(string \<times> cleaner) list"

fun asObject_loop :: "cleaner_shape \<Rightarrow> jsval \<Rightarrow> props \<Rightarrow> error + props" where
  "asObject_loop [] raw out = Inr out"
| "asObject_loop ((key, cleaner) # shape) raw out =
     (case cleaner (js_get raw key) of
        Inr v \<Rightarrow> asObject_loop shape raw (obj_set key v out)
      | Inl e \<Rightarrow> Inl e)"

definition asObject :: "cleaner_shape \<Rightarrow> cleaner" where
  \<comment> \<open>Modelled from the spec: \<open>asObject\<close> is imported from the \<open>cleaners\<close> package, which
      is not part of the sources. Section 6: the record validator fails on null and
      non-object input; otherwise it validates each declared field, ignoring extra input
      fields, and fails when a field's validator fails.\<close>
  "asObject shape raw =
     (if \<not> is_object raw then Inl (TypeError ''Expected an object'')
      else map_sum id Obj (asObject_loop shape raw []))"

definition asHealingObject_shape :: "cleaner_shape \<Rightarrow> props \<Rightarrow> cleaner" where
  \<comment> \<open>\<open>safeShape = { ...shape }\<close>, then
      \<open>safeShape[key] = asMaybe(shape[key], fallback[key])\<close> for every key of the shape,
      then \<open>asMaybe(asObject(safeShape), fallback)\<close>\<close>
  "asHealingObject_shape shape fallback =
     asMaybe
       (asObject (map (\<lambda>(key, cleaner). (key, asMaybe cleaner (js_get (Obj fallback) key)))
                    (obj_assign [] shape)))
       (Obj fallback)"

text \<open>Two element cleaners the repository's tests use, for concrete runs.\<close>

definition asNumber :: cleaner where
  "asNumber raw = (case raw of Num n \<Rightarrow> Inr (Num n) | _ \<Rightarrow> Inl (TypeError ''Expected a number''))"

definition asString :: cleaner where
  "asString raw = (case raw of Str s \<Rightarrow> Inr (Str s) | _ \<Rightarrow> Inl (TypeError ''Expected a string''))"

text \<open>
  A number cleaner that also converts a string of digits, as the docstring of
  \<open>asHealingObject\<close> has it (\<open>'25'\<close> converts to \<open>25\<close>).
\<close>

definition asNumeric :: cleaner where
  "asNumeric raw =
     (case raw of
        Num n \<Rightarrow> Inr (Num n)
      | Str s \<Rightarrow>
          (if s = [] then Inl (TypeError ''Expected a number'')
           else case decimal_value 0 s of
                  Some n \<Rightarrow> Inr (Num n)
                | None \<Rightarrow> Inl (TypeError ''Expected a number''))
      | _ \<Rightarrow> Inl (TypeError ''Expected a number''))"

text \<open>
  A wrapper in the manner of \<open>asOptional\<close> of the \<open>cleaners\<close> package: a missing value
  is accepted as \<open>undefined\<close>.
\<close>

definition asOptional :: "cleaner \<Rightarrow> cleaner" where
  "asOptional cleaner raw = (if nullish raw then Inr Undefined else cleaner raw)"

section \<open>What each slot contributes\<close>

text \<open>
  The drop-or-default policy of sections 4.2 and 4.3 of the specification, written per
  slot: the values an index adds to the healed array (none, or one), and the value a key
  gets in the healed object (\<open>None\<close> when the key is left out). The fallback entry of a
  slot is what the code reads there, \<open>fallback?.[i]\<close> or \<open>fallback?.[key]\<close>. The loops
  above are compared with these.
\<close>

definition spec_array_slot :: "cleaner \<Rightarrow> jsval list option \<Rightarrow> jsval list \<Rightarrow> nat \<Rightarrow> jsval list" where
  "spec_array_slot cleaner fallback raw i =
     (case cleaner (js_index raw i) of
        Inr v \<Rightarrow> [v]
      | Inl e \<Rightarrow> if nullish (fallback_at fallback i) then [] else [fallback_at fallback i])"

definition spec_object_slot :: "cleaner \<Rightarrow> props option \<Rightarrow> jsval \<Rightarrow> string \<Rightarrow> jsval option" where
  "spec_object_slot cleaner fallback raw key =
     (if key = ''__proto__'' then None
      else case cleaner (js_get raw key) of
             Inr v \<Rightarrow> Some v
           | Inl e \<Rightarrow>
               if nullish (fallback_get fallback key) then None
               else Some (fallback_get fallback key))"

definition put_slot :: "(string \<Rightarrow> jsval option) \<Rightarrow> string \<Rightarrow> props \<Rightarrow> props" where
  \<comment> \<open>one turn of the key loop, given what each key contributes\<close>
  "put_slot f key out = (case f key of None \<Rightarrow> out | Some v \<Rightarrow> obj_set key v out)"

section \<open>The loops compute the per-slot policy\<close>

lemma asMaybeArray_loop_eq:
  "asMaybeArray_loop c fb xs n i out = Inr (out @ concat (map (spec_array_slot c fb xs) [i..<n]))"
proof (induction c fb xs n i out rule: asMaybeArray_loop.induct)
  case (1 c fb xs n i out)
  show ?case
  proof (cases "i < n")
    case False
    then show ?thesis by (simp add: asMaybeArray_loop.simps [of c fb xs n i out])
  next
    case True
    then have upt: "[i..<n] = i # [Suc i..<n]" by (simp add: upt_conv_Cons)
    show ?thesis
    proof (cases "c (js_index xs i)")
      case (Inr v)
      then have slot: "spec_array_slot c fb xs i = [v]" by (simp add: spec_array_slot_def)
      have "asMaybeArray_loop c fb xs n i out = asMaybeArray_loop c fb xs n (Suc i) (out @ [v])"
        using True Inr by (subst asMaybeArray_loop.simps) (simp add: asMaybe_def)
      also have "\<dots> = Inr ((out @ [v]) @ concat (map (spec_array_slot c fb xs) [Suc i..<n]))"
        using True Inr 1 by (cases "nullish (fallback_at fb i)") (simp_all add: asMaybe_def)
      finally show ?thesis by (simp add: upt slot)
    next
      case (Inl e)
      show ?thesis
      proof (cases "nullish (fallback_at fb i)")
        case True
        then have slot: "spec_array_slot c fb xs i = []" using Inl by (simp add: spec_array_slot_def)
        have "asMaybeArray_loop c fb xs n i out = asMaybeArray_loop c fb xs n (Suc i) out"
          using \<open>i < n\<close> Inl True by (subst asMaybeArray_loop.simps) simp
        also have "\<dots> = Inr (out @ concat (map (spec_array_slot c fb xs) [Suc i..<n]))"
          using \<open>i < n\<close> Inl True 1 by simp
        finally show ?thesis by (simp add: upt slot)
      next
        case False
        then have slot: "spec_array_slot c fb xs i = [fallback_at fb i]"
          using Inl by (simp add: spec_array_slot_def)
        have "asMaybeArray_loop c fb xs n i out =
                asMaybeArray_loop c fb xs n (Suc i) (out @ [fallback_at fb i])"
          using \<open>i < n\<close> Inl False by (subst asMaybeArray_loop.simps) (simp add: asMaybe_def)
        also have "\<dots> = Inr ((out @ [fallback_at fb i]) @ concat (map (spec_array_slot c fb xs) [Suc i..<n]))"
          using \<open>i < n\<close> Inl False 1 by (simp add: asMaybe_def)
        finally show ?thesis by (simp add: upt slot)
      qed
    qed
  qed
qed

lemma asHealingArrayCleaner_loop_eq:
  "asHealingArrayCleaner_loop c xs out =
     Inr (out @ concat (map (\<lambda>x. case c x of Inr v \<Rightarrow> [v] | Inl e \<Rightarrow> []) xs))"
  by (induction xs arbitrary: out) (auto split: sum.splits)

lemma asMaybeTuple_loop_eq:
  "asMaybeTuple_loop c fb xs n i out =
     Inr (out @ map (\<lambda>j. case c (js_index xs j) of Inr v \<Rightarrow> v | Inl e \<Rightarrow> js_index fb j) [i..<n])"
proof (induction c fb xs n i out rule: asMaybeTuple_loop.induct)
  case (1 c fb xs n i out)
  show ?case
  proof (cases "i < n")
    case False
    then show ?thesis by (simp add: asMaybeTuple_loop.simps [of c fb xs n i out])
  next
    case True
    then have upt: "[i..<n] = i # [Suc i..<n]" by (simp add: upt_conv_Cons)
    show ?thesis
      using True 1
      by (subst asMaybeTuple_loop.simps)
         (auto simp: upt asMaybe_def split: sum.splits)
  qed
qed

subsection \<open>Property tables\<close>

lemma set_keys_obj_insert: "set (map fst (obj_insert k v kvs)) = insert k (set (map fst kvs))"
  by (induction kvs) (force split: if_splits)+

lemma keys_obj_update:
  "map fst (map (\<lambda>(k, w). if k = key then (k, v) else (k, w)) kvs) = map fst kvs"
  by (induction kvs) auto

lemma set_keys_obj_set: "set (map fst (obj_set k v kvs)) = insert k (set (map fst kvs))"
proof (cases "k \<in> set (map fst kvs)")
  case True
  then show ?thesis
    using keys_obj_update [of k v kvs] by (auto simp: obj_set_def)
next
  case False
  then show ?thesis
    using set_keys_obj_insert [of k v kvs] by (simp add: obj_set_def)
qed

lemma map_of_obj_insert:
  "k \<notin> set (map fst kvs) \<Longrightarrow> map_of (obj_insert k v kvs) = (map_of kvs)(k \<mapsto> v)"
  by (induction kvs) (auto simp: fun_upd_twist)

lemma map_of_obj_update:
  "map_of (map (\<lambda>(k', w). if k' = k then (k', v) else (k', w)) kvs) a =
     (if a = k then map_option (\<lambda>w. v) (map_of kvs k) else map_of kvs a)"
  by (induction kvs) auto

lemma map_of_obj_set: "map_of (obj_set k v kvs) = (map_of kvs)(k \<mapsto> v)"
proof (cases "k \<in> set (map fst kvs)")
  case True
  then obtain w where "map_of kvs k = Some w"
    by (metis map_of_eq_None_iff not_Some_eq set_map)
  then show ?thesis
    using True unfolding obj_set_def by (auto simp: map_of_obj_update fun_eq_iff)
next
  case False
  then show ?thesis
    by (simp add: obj_set_def map_of_obj_insert)
qed

lemma fallback_get_usable:
  "\<not> nullish (fallback_get fb key) \<Longrightarrow>
     js_get (Obj (case fb of None \<Rightarrow> [] | Some kvs \<Rightarrow> kvs)) key = fallback_get fb key"
  by (cases fb) (simp_all add: fallback_get_def nullish_def)

lemma asMaybeObject_loop_eq:
  "asMaybeObject_loop c fb raw keys out = Inr (fold (put_slot (spec_object_slot c fb raw)) keys out)"
proof (induction keys arbitrary: out)
  case Nil
  then show ?case by simp
next
  case (Cons key keys)
  show ?case
  proof (cases "key = ''__proto__''")
    case True
    then show ?thesis by (simp add: Cons put_slot_def spec_object_slot_def)
  next
    case False
    show ?thesis
    proof (cases "nullish (fallback_get fb key)")
      case True
      then show ?thesis
        using False
        by (cases "c (js_get raw key)") (simp_all add: Cons put_slot_def spec_object_slot_def)
    next
      case usable: False
      then show ?thesis
        using False fallback_get_usable [OF usable]
        by (cases "c (js_get raw key)")
           (simp_all add: Cons put_slot_def spec_object_slot_def asMaybe_def)
    qed
  qed
qed

lemma map_of_put_slot:
  "map_of (put_slot f key out) k =
     (if k = key then (case f key of None \<Rightarrow> map_of out key | Some v \<Rightarrow> Some v)
      else map_of out k)"
  by (cases "f key") (simp_all add: put_slot_def map_of_obj_set)

lemma map_of_fold_put_slot:
  "map_of (fold (put_slot f) keys out) k =
     (if k \<in> set keys then (case f k of None \<Rightarrow> map_of out k | Some v \<Rightarrow> Some v)
      else map_of out k)"
  by (induction keys arbitrary: out) (auto simp: map_of_put_slot split: option.splits)

lemma asMaybeObject_eq:
  "is_object raw \<Longrightarrow>
     asMaybeObject c fb raw =
       Inr (Obj (fold (put_slot (spec_object_slot c fb raw)) (healing_keys raw fb) []))"
  by (simp add: asMaybeObject_def asMaybeObject_loop_eq)

lemma asMaybeObject_not_object: "\<not> is_object raw \<Longrightarrow> asMaybeObject c fb raw = Inr (Obj [])"
  by (simp add: asMaybeObject_def)

lemma in_keys_iff: "k \<in> set (map fst kvs) \<longleftrightarrow> map_of kvs k \<noteq> None"
  by (simp add: map_of_eq_None_iff)

lemma asMaybeObject_lookup:
  assumes "is_object raw" and "key \<in> set (healing_keys raw fallback)"
  shows "\<exists>out. asMaybeObject cleaner fallback raw = Inr (Obj out) \<and>
           map_of out key = spec_object_slot cleaner fallback raw key"
proof -
  let ?out = "fold (put_slot (spec_object_slot cleaner fallback raw)) (healing_keys raw fallback) []"
  have "map_of ?out key = spec_object_slot cleaner fallback raw key"
    using assms(2) by (simp add: map_of_fold_put_slot split: option.splits)
  with asMaybeObject_eq [OF assms(1)] show ?thesis by blast
qed

subsection \<open>Creating properties in enumeration order\<close>

lemma obj_insert_last:
  "\<forall>k' \<in> set (map fst kvs). \<not> key_precedes k k' \<Longrightarrow> obj_insert k v kvs = kvs @ [(k, v)]"
  by (induction kvs) auto

lemma wf_keys_snoc:
  "wf_keys (ks @ [k]) \<Longrightarrow> wf_keys ks \<and> k \<notin> set ks \<and> (\<forall>k' \<in> set ks. \<not> key_precedes k k')"
  by (auto simp: wf_keys_def sorted_wrt_append)

lemma obj_set_last:
  assumes "wf_keys (map fst kvs @ [k])"
  shows "obj_set k v kvs = kvs @ [(k, v)]"
proof -
  from wf_keys_snoc [OF assms]
  have "k \<notin> set (map fst kvs)" and "\<forall>k' \<in> set (map fst kvs). \<not> key_precedes k k'"
    by simp_all
  then show ?thesis
    by (simp add: obj_set_def obj_insert_last)
qed

lemma fold_obj_set_wf:
  "wf_keys (map fst kxs) \<Longrightarrow>
     fold (\<lambda>(k, x). obj_set k (h k x)) kxs [] = map (\<lambda>(k, x). (k, h k x)) kxs"
proof (induction kxs rule: rev_induct)
  case Nil
  then show ?case by simp
next
  case (snoc a kxs)
  obtain k x where a: "a = (k, x)" by (cases a)
  from snoc.prems have wf: "wf_keys (map fst kxs @ [k])" by (simp add: a)
  then have "wf_keys (map fst kxs)" by (simp add: wf_keys_snoc)
  then have IH: "fold (\<lambda>(k, x). obj_set k (h k x)) kxs [] = map (\<lambda>(k, x). (k, h k x)) kxs"
    by (rule snoc.IH)
  have keys: "map fst (map (\<lambda>(k, x). (k, h k x)) kxs) = map fst kxs"
    by (induction kxs) auto
  have "obj_set k (h k x) (map (\<lambda>(k, x). (k, h k x)) kxs) =
          map (\<lambda>(k, x). (k, h k x)) kxs @ [(k, h k x)]"
    by (rule obj_set_last) (simp only: keys wf)
  then show ?case
    by (simp add: a IH)
qed

lemma obj_assign_self: "wf_keys (map fst kvs) \<Longrightarrow> obj_assign [] kvs = kvs"
  using fold_obj_set_wf [of kvs "\<lambda>k x. x"] by (simp add: obj_assign_def)

lemma key_precedes_asym: "key_precedes a b \<Longrightarrow> \<not> key_precedes b a"
  by (auto simp: key_precedes_def split: option.splits)

lemma key_precedes_trans: "key_precedes a b \<Longrightarrow> key_precedes b c \<Longrightarrow> key_precedes a c"
  by (auto simp: key_precedes_def split: option.splits)

lemma key_precedes_between:
  "key_precedes k k' \<Longrightarrow> \<not> key_precedes b k' \<Longrightarrow> \<not> key_precedes b k"
  using key_precedes_trans by blast

lemma wf_keys_obj_insert:
  "wf_keys (map fst kvs) \<Longrightarrow> k \<notin> set (map fst kvs) \<Longrightarrow> wf_keys (map fst (obj_insert k v kvs))"
proof (induction kvs)
  case Nil
  then show ?case by (simp add: wf_keys_def)
next
  case (Cons a kvs)
  obtain k' w where a: "a = (k', w)" by (cases a)
  from Cons.prems have wf_tl: "wf_keys (map fst kvs)" and fresh: "k \<notin> set (map fst kvs)"
    and neq: "k \<noteq> k'"
    and hd_ok: "\<forall>b \<in> set (map fst kvs). \<not> key_precedes b k'"
    and dist: "k' \<notin> set (map fst kvs)"
    by (auto simp: a wf_keys_def)
  show ?case
  proof (cases "key_precedes k k'")
    case True
    have "\<not> key_precedes k' k" using True by (rule key_precedes_asym)
    moreover have "\<forall>b \<in> set (map fst kvs). \<not> key_precedes b k"
      using True hd_ok key_precedes_between by blast
    ultimately show ?thesis
      using Cons.prems True by (auto simp: a wf_keys_def)
  next
    case False
    from Cons.IH [OF wf_tl fresh] have "wf_keys (map fst (obj_insert k v kvs))" .
    moreover have "set (map fst (obj_insert k v kvs)) = insert k (set (map fst kvs))"
      by (rule set_keys_obj_insert)
    ultimately show ?thesis
      using False hd_ok dist neq by (auto simp: a wf_keys_def)
  qed
qed

lemma keys_obj_set_present:
  "k \<in> set (map fst kvs) \<Longrightarrow> map fst (obj_set k v kvs) = map fst kvs"
  using keys_obj_update [of k v kvs] by (simp add: obj_set_def)

lemma wf_keys_obj_set: "wf_keys (map fst kvs) \<Longrightarrow> wf_keys (map fst (obj_set k v kvs))"
proof (cases "k \<in> set (map fst kvs)")
  case True
  assume "wf_keys (map fst kvs)"
  then show ?thesis by (simp only: keys_obj_set_present [OF True])
next
  case False
  assume "wf_keys (map fst kvs)"
  then have "wf_keys (map fst (obj_insert k v kvs))" using False by (rule wf_keys_obj_insert)
  then show ?thesis using False by (simp add: obj_set_def)
qed

lemma wf_keys_obj_assign:
  "wf_keys (map fst target) \<Longrightarrow> wf_keys (map fst (obj_assign target source))"
proof (induction source arbitrary: target)
  case Nil
  then show ?case by (simp add: obj_assign_def)
next
  case (Cons a source)
  obtain k v where a: "a = (k, v)" by (cases a)
  have "obj_assign target ((k, v) # source) = obj_assign (obj_set k v target) source"
    by (simp add: obj_assign_def)
  moreover have "wf_keys (map fst (obj_assign (obj_set k v target) source))"
    using Cons.prems by (intro Cons.IH wf_keys_obj_set)
  ultimately show ?case by (simp add: a)
qed

lemma wf_keys_plain:
  "distinct ks \<Longrightarrow> \<forall>k \<in> set ks. array_index k = None \<Longrightarrow> wf_keys ks"
  by (induction ks) (auto simp: wf_keys_def key_precedes_def)

lemma set_keys_obj_assign:
  "set (map fst (obj_assign target source)) = set (map fst target) \<union> set (map fst source)"
proof (induction source arbitrary: target)
  case Nil
  then show ?case by (simp add: obj_assign_def)
next
  case (Cons a source)
  obtain k v where a: "a = (k, v)" by (cases a)
  have "obj_assign target (a # source) = obj_assign (obj_set k v target) source"
    by (simp add: obj_assign_def a)
  then show ?case
    using Cons [of "obj_set k v target"] set_keys_obj_set [of k v target]
    by (auto simp: a)
qed

lemma keys_obj_set_plain:
  assumes "k \<notin> set (map fst kvs)" and "array_index k = None"
  shows "obj_set k v kvs = kvs @ [(k, v)]"
proof -
  have "\<forall>k' \<in> set (map fst kvs). \<not> key_precedes k k'"
    using assms(2) by (simp add: key_precedes_def)
  then show ?thesis
    using assms(1) by (simp add: obj_set_def obj_insert_last)
qed

lemma keys_obj_assign:
  assumes "distinct (map fst source)"
    and "\<forall>k \<in> set (map fst source). k \<notin> set (map fst target) \<longrightarrow> array_index k = None"
  shows "map fst (obj_assign target source) =
           map fst target @ filter (\<lambda>k. k \<notin> set (map fst target)) (map fst source)"
  using assms
proof (induction source arbitrary: target)
  case Nil
  then show ?case by (simp add: obj_assign_def)
next
  case (Cons a source)
  obtain k v where a: "a = (k, v)" by (cases a)
  have step: "obj_assign target ((k, v) # source) = obj_assign (obj_set k v target) source"
    by (simp add: obj_assign_def)
  from Cons.prems(1) have dist: "distinct (map fst source)" and fresh: "k \<notin> set (map fst source)"
    by (simp_all add: a)
  show ?case
  proof (cases "k \<in> set (map fst target)")
    case True
    then have keys: "map fst (obj_set k v target) = map fst target"
      by (rule keys_obj_set_present)
    have "map fst (obj_assign (obj_set k v target) source) =
            map fst (obj_set k v target) @
            filter (\<lambda>k'. k' \<notin> set (map fst (obj_set k v target))) (map fst source)"
      using dist Cons.prems(2) by (intro Cons.IH) (simp_all only: keys, simp add: a)
    then show ?thesis
      using True unfolding a step keys by simp
  next
    case False
    with Cons.prems(2) have plain: "array_index k = None" by (simp add: a)
    have set: "obj_set k v target = target @ [(k, v)]"
      using False plain by (rule keys_obj_set_plain)
    have "map fst (obj_assign (target @ [(k, v)]) source) =
            map fst (target @ [(k, v)]) @
            filter (\<lambda>k'. k' \<notin> set (map fst (target @ [(k, v)]))) (map fst source)"
      using dist Cons.prems(2) by (intro Cons.IH) (auto simp: a)
    moreover have "filter (\<lambda>k'. k' \<notin> set (map fst (target @ [(k, v)]))) (map fst source) =
                   filter (\<lambda>k'. k' \<notin> set (map fst target)) (map fst source)"
      using fresh by (intro filter_cong) auto
    ultimately show ?thesis
      using False unfolding a step set by simp
  qed
qed

lemma wf_keys_fold_put_slot:
  "wf_keys (map fst out) \<Longrightarrow> wf_keys (map fst (fold (put_slot f) keys out))"
proof (induction keys arbitrary: out)
  case Nil
  then show ?case by simp
next
  case (Cons key keys)
  have "wf_keys (map fst (put_slot f key out))"
    using Cons.prems by (cases "f key") (simp_all add: put_slot_def wf_keys_obj_set)
  then show ?case by (simp add: Cons.IH)
qed

lemma fold_put_slot_rebuild:
  "wf_keys (map fst kvs) \<Longrightarrow> \<forall>(k, v) \<in> set kvs. f k = Some v \<Longrightarrow>
     fold (put_slot f) (map fst kvs) [] = kvs"
proof (induction kvs rule: rev_induct)
  case Nil
  then show ?case by simp
next
  case (snoc a kvs)
  obtain k v where a: "a = (k, v)" by (cases a)
  from snoc.prems(1) have wf: "wf_keys (map fst kvs @ [k])" by (simp add: a)
  then have "wf_keys (map fst kvs)" by (simp add: wf_keys_snoc)
  with snoc have IH: "fold (put_slot f) (map fst kvs) [] = kvs" by simp
  from snoc.prems(2) have "f k = Some v" by (simp add: a)
  then have "put_slot f k kvs = kvs @ [(k, v)]"
    using obj_set_last [OF wf] by (simp add: put_slot_def)
  then show ?case by (simp add: a IH)
qed

lemma first_pass_entries:
  assumes "(k, v) \<in> set (fold (put_slot f) keys [])"
  shows "k \<in> set keys \<and> f k = Some v"
proof -
  let ?out = "fold (put_slot f) keys []"
  have "wf_keys (map fst ?out)" by (rule wf_keys_fold_put_slot) (simp add: wf_keys_def)
  then have "distinct (map fst ?out)" by (simp add: wf_keys_def)
  with assms have "map_of ?out k = Some v" by simp
  then show ?thesis
    by (simp add: map_of_fold_put_slot split: if_splits option.splits)
qed

lemma array_index_proto: "array_index ''__proto__'' = None"
  by (simp add: array_index_def digit_value_def)

lemma keys_obj_assign_extra:
  assumes "\<forall>k \<in> set (map fst source). k \<in> set (map fst target) \<or> k = p"
    and "array_index p = None"
  shows "map fst (obj_assign target source) =
           map fst target @
           (if p \<in> set (map fst source) \<and> p \<notin> set (map fst target) then [p] else [])"
  using assms(1)
proof (induction source arbitrary: target)
  case Nil
  then show ?case by (simp add: obj_assign_def)
next
  case (Cons a source)
  obtain k v where a: "a = (k, v)" by (cases a)
  have step: "obj_assign target ((k, v) # source) = obj_assign (obj_set k v target) source"
    by (simp add: obj_assign_def)
  show ?case
  proof (cases "k \<in> set (map fst target)")
    case True
    then have keys: "map fst (obj_set k v target) = map fst target"
      by (rule keys_obj_set_present)
    have "map fst (obj_assign (obj_set k v target) source) =
            map fst (obj_set k v target) @
            (if p \<in> set (map fst source) \<and> p \<notin> set (map fst (obj_set k v target)) then [p] else [])"
      using Cons.prems by (intro Cons.IH) (simp only: keys, simp add: a)
    then show ?thesis
      using True unfolding a step keys by auto
  next
    case False
    with Cons.prems have kp: "k = p" by (simp add: a)
    have set: "obj_set k v target = target @ [(k, v)]"
      using False assms(2) kp by (intro keys_obj_set_plain) simp_all
    have "map fst (obj_assign (target @ [(k, v)]) source) =
            map fst (target @ [(k, v)]) @
            (if p \<in> set (map fst source) \<and> p \<notin> set (map fst (target @ [(k, v)])) then [p] else [])"
      using Cons.prems by (intro Cons.IH) (auto simp: a)
    then show ?thesis
      using False kp unfolding a step set by simp
  qed
qed

section \<open>Key-value mode of asHealingObject\<close>

text \<open>
  Claim C1. In the key-value mode, for a raw object and an enumerated key other than
  \<open>'__proto__'\<close>: when the fallback has no non-null entry for the key, the output binds
  the key to the cleaned \<open>raw[key]\<close> if the cleaner accepts it and leaves the key out if
  the cleaner throws; when the fallback has a non-null entry, the key is always bound.

  The code tests \<open>fallback?.[key] == null\<close>, a property read, and a read finds the members
  of \<open>Object.prototype\<close> as well. For the fallback \<open>{a: 'x'}\<close> and the raw input
  \<open>{constructor: 5}\<close> the fallback has no entry for \<open>constructor\<close> and \<open>asString\<close> rejects
  \<open>5\<close>, so the key should be left out; the read gives the inherited function, the loop
  takes the \<open>asMaybe\<close> branch, and the key is bound. For every enumerated key the lemma
  \<open>asMaybeObject_lookup\<close> gives the binding: it is the policy above with
  \<open>fallback?.[key]\<close> as the fallback's entry, so the two differ at such keys only.
\<close>

theorem asHealingObject_open_inherited_key:
  "map_of [(''a'', Str ''x'')] ''constructor'' = None \<and>
   asString (js_get (Obj [(''constructor'', Num 5)]) ''constructor'') =
     Inl (TypeError ''Expected a string'') \<and>
   is_function (fallback_get (Some [(''a'', Str ''x'')]) ''constructor'') \<and>
   (\<exists>out. asMaybeObject asString (Some [(''a'', Str ''x'')]) (Obj [(''constructor'', Num 5)]) =
            Inr (Obj out) \<and>
          map fst out = [''constructor'', ''a''])"
proof -
  have "asMaybeObject asString (Some [(''a'', Str ''x'')]) (Obj [(''constructor'', Num 5)]) =
          Inr (Obj [(''constructor'', Fun ''Object.prototype.constructor''), (''a'', Str ''x'')])"
    by code_simp
  then have "\<exists>out. asMaybeObject asString (Some [(''a'', Str ''x'')])
                 (Obj [(''constructor'', Num 5)]) = Inr (Obj out) \<and>
               map fst out = [''constructor'', ''a'']"
    by simp
  moreover have "map_of [(''a'', Str ''x'')] ''constructor'' = None"
    by simp
  moreover have "asString (js_get (Obj [(''constructor'', Num 5)]) ''constructor'') =
     Inl (TypeError ''Expected a string'')"
    by code_simp
  moreover have "is_function (fallback_get (Some [(''a'', Str ''x'')]) ''constructor'')"
    by code_simp
  ultimately show ?thesis by blast
qed

text \<open>
  Claim C9. In the key-value mode the output never has an own key \<open>'__proto__'\<close>, whatever
  the raw input, the cleaner and the fallback are.
\<close>

theorem asHealingObject_open_no_proto:
  "\<exists>out. asMaybeObject cleaner fallback raw = Inr (Obj out) \<and> ''__proto__'' \<notin> set (map fst out)"
proof (cases "is_object raw")
  case False
  then show ?thesis by (simp add: asMaybeObject_def)
next
  case True
  let ?out = "fold (put_slot (spec_object_slot cleaner fallback raw)) (healing_keys raw fallback) []"
  have "map_of ?out ''__proto__'' = None"
    by (simp add: map_of_fold_put_slot spec_object_slot_def)
  then have "''__proto__'' \<notin> set (map fst ?out)"
    unfolding in_keys_iff by simp
  with asMaybeObject_eq [OF True] show ?thesis by blast
qed

section \<open>asHealingArray and asHealingTuple\<close>

lemma spec_array_slot_no_fallback:
  "map (spec_array_slot c None xs) [0..<length xs] =
     map (\<lambda>x. case c x of Inr v \<Rightarrow> [v] | Inl e \<Rightarrow> []) xs"
  by (rule nth_equalityI)
     (simp_all add: spec_array_slot_def js_index_def fallback_at_def nullish_def)

lemma asHealingArray_eq:
  "asHealingArray c fb (Arr xs) =
     Inr (Arr (concat (map (spec_array_slot c fb xs)
                 [0..<max (length xs) (case fb of None \<Rightarrow> 0 | Some f \<Rightarrow> length f)])))"
  by (simp add: asHealingArray_def asMaybeArray_loop_eq)

lemma asHealingArray_not_array: "\<not> is_array raw \<Longrightarrow> asHealingArray c fb raw = Inr (Arr [])"
  by (cases raw) (simp_all add: asHealingArray_def is_array_def)

lemma asHealingTuple_eq:
  "asHealingTuple c fb (Arr xs) =
     Inr (Arr (map (\<lambda>j. case c (js_index xs j) of Inr v \<Rightarrow> v | Inl e \<Rightarrow> js_index fb j)
                 [0..<length fb]))"
  by (simp add: asHealingTuple_def asMaybeTuple_loop_eq)

lemma asHealingTuple_not_array: "\<not> is_array raw \<Longrightarrow> asHealingTuple c fb raw = Inr (Arr fb)"
  by (cases raw) (simp_all add: asHealingTuple_def is_array_def)

text \<open>
  Claim C10. The two implementations of \<open>asHealingArray\<close> agree: the single-argument
  one (the \<open>for ... of\<close> loop) returns, for every cleaner and raw input, what the
  generalised one (the indexed loop) returns when it is called without a fallback.
\<close>

theorem asHealingArray_implementations_agree:
  "asHealingArrayCleaner cleaner raw = asHealingArray cleaner None raw"
proof (cases "is_array raw")
  case False
  then show ?thesis
    by (cases raw) (simp_all add: asHealingArrayCleaner_def asHealingArray_def is_array_def)
next
  case True
  then obtain xs where raw: "raw = Arr xs" by (cases raw) (simp_all add: is_array_def)
  show ?thesis
    unfolding raw asHealingArray_eq
    by (simp add: asHealingArrayCleaner_def asHealingArrayCleaner_loop_eq
        spec_array_slot_no_fallback)
qed

text \<open>
  Claim C3. \<open>asHealingTuple\<close> returns, for every cleaner, fallback and raw input, an
  array as long as the fallback; an input that is not an array yields a copy of the
  fallback, and the raw elements past the fallback's length are ignored.
\<close>

theorem asHealingTuple_length:
  "(\<exists>out. asHealingTuple cleaner fallback raw = Inr (Arr out) \<and> length out = length fallback) \<and>
   (\<not> is_array raw \<longrightarrow> asHealingTuple cleaner fallback raw = Inr (Arr fallback)) \<and>
   asHealingTuple cleaner fallback (Arr xs) =
     asHealingTuple cleaner fallback (Arr (take (length fallback) xs))"
proof (intro conjI impI)
  show "\<exists>out. asHealingTuple cleaner fallback raw = Inr (Arr out) \<and> length out = length fallback"
  proof (cases "is_array raw")
    case False
    then show ?thesis by (simp add: asHealingTuple_not_array)
  next
    case True
    then obtain ys where "raw = Arr ys" by (cases raw) (simp_all add: is_array_def)
    then show ?thesis by (simp add: asHealingTuple_eq)
  qed
next
  assume "\<not> is_array raw"
  then show "asHealingTuple cleaner fallback raw = Inr (Arr fallback)"
    by (rule asHealingTuple_not_array)
next
  have "js_index (take (length fallback) xs) j = js_index xs j"
    if "j < length fallback" for j
    using that by (simp add: js_index_def)
  then show "asHealingTuple cleaner fallback (Arr xs) =
     asHealingTuple cleaner fallback (Arr (take (length fallback) xs))"
    unfolding asHealingTuple_eq by simp
qed

text \<open>The inputs of the docstring of \<open>asHealingTuple\<close>.\<close>

theorem asHealingTuple_length_witness:
  "\<not> is_array (Str ''not an array'') \<and>
   asHealingTuple asNumber [Num 10, Num 20] (Str ''not an array'') = Inr (Arr [Num 10, Num 20]) \<and>
   asHealingTuple asNumber [Num 10, Num 20] (Arr [Num 1, Num 2, Num 3, Num 4, Num 5]) =
     Inr (Arr [Num 1, Num 2])"
proof -
  have h: "\<not> is_array (Str ''not an array'')" by (simp add: is_array_def)
  have run: "asHealingTuple asNumber [Num 10, Num 20] (Arr [Num 1, Num 2]) = Inr (Arr [Num 1, Num 2])"
    by code_simp
  show ?thesis
    using h run
      asHealingTuple_length [of asNumber "[Num 10, Num 20]" "Str ''not an array''"
        "[Num 1, Num 2, Num 3, Num 4, Num 5]"]
    by simp
qed

text \<open>
  Claim C2. \<open>asHealingArray\<close> with a fallback list, on a raw array: the output is the
  concatenation, in index order, of what each index below
  \<open>max (length raw) (length fallback)\<close> contributes. An index whose element the cleaner
  accepts contributes the cleaned element; an index whose element the cleaner rejects
  contributes its fallback entry when that entry is not null or undefined, so it is
  never dropped, and contributes nothing otherwise.
\<close>

theorem asHealingArray_with_fallback:
  "\<exists>out. asHealingArray cleaner (Some fallback) (Arr raw) = Inr (Arr out) \<and>
     out = concat (map (spec_array_slot cleaner (Some fallback) raw)
                     [0..<max (length raw) (length fallback)]) \<and>
     (\<forall>i < max (length raw) (length fallback).
        (\<forall>v. cleaner (js_index raw i) = Inr v \<longrightarrow>
           spec_array_slot cleaner (Some fallback) raw i = [v] \<and> v \<in> set out) \<and>
        (\<forall>e. cleaner (js_index raw i) = Inl e \<and> \<not> nullish (js_index fallback i) \<longrightarrow>
           spec_array_slot cleaner (Some fallback) raw i = [js_index fallback i] \<and>
           js_index fallback i \<in> set out) \<and>
        (\<forall>e. cleaner (js_index raw i) = Inl e \<and> nullish (js_index fallback i) \<longrightarrow>
           spec_array_slot cleaner (Some fallback) raw i = []))"
proof -
  let ?n = "max (length raw) (length fallback)"
  let ?out = "concat (map (spec_array_slot cleaner (Some fallback) raw) [0..<?n])"
  have run: "asHealingArray cleaner (Some fallback) (Arr raw) = Inr (Arr ?out)"
    by (simp add: asHealingArray_eq)
  have mem: "set (spec_array_slot cleaner (Some fallback) raw i) \<subseteq> set ?out" if "i < ?n" for i
    using that by auto
  have "(\<forall>v. cleaner (js_index raw i) = Inr v \<longrightarrow>
           spec_array_slot cleaner (Some fallback) raw i = [v] \<and> v \<in> set ?out) \<and>
        (\<forall>e. cleaner (js_index raw i) = Inl e \<and> \<not> nullish (js_index fallback i) \<longrightarrow>
           spec_array_slot cleaner (Some fallback) raw i = [js_index fallback i] \<and>
           js_index fallback i \<in> set ?out) \<and>
        (\<forall>e. cleaner (js_index raw i) = Inl e \<and> nullish (js_index fallback i) \<longrightarrow>
           spec_array_slot cleaner (Some fallback) raw i = [])"
    if "i < ?n" for i
  proof (intro conjI allI impI)
    fix v assume "cleaner (js_index raw i) = Inr v"
    then have "spec_array_slot cleaner (Some fallback) raw i = [v]"
      by (simp add: spec_array_slot_def)
    with mem [OF that] show "spec_array_slot cleaner (Some fallback) raw i = [v]" "v \<in> set ?out"
      by simp_all
  next
    fix e assume "cleaner (js_index raw i) = Inl e \<and> \<not> nullish (js_index fallback i)"
    then have "spec_array_slot cleaner (Some fallback) raw i = [js_index fallback i]"
      by (simp add: spec_array_slot_def fallback_at_def)
    with mem [OF that]
    show "spec_array_slot cleaner (Some fallback) raw i = [js_index fallback i]"
      "js_index fallback i \<in> set ?out"
      by simp_all
  next
    fix e assume "cleaner (js_index raw i) = Inl e \<and> nullish (js_index fallback i)"
    then show "spec_array_slot cleaner (Some fallback) raw i = []"
      by (simp add: spec_array_slot_def fallback_at_def)
  qed
  with run show ?thesis by blast
qed

text \<open>The input of the repository's test "works with number cleaner and fallback".\<close>

theorem asHealingArray_with_fallback_witness:
  "(1::nat) < max (length [Num 10, Str ''invalid'', Num 20, Null]) (length [Num 0, Num 1, Num 2]) \<and>
   asNumber (js_index [Num 10, Str ''invalid'', Num 20, Null] 1) = Inl (TypeError ''Expected a number'') \<and>
   \<not> nullish (js_index [Num 0, Num 1, Num 2] 1) \<and>
   asHealingArray asNumber (Some [Num 0, Num 1, Num 2]) (Arr [Num 10, Str ''invalid'', Num 20, Null]) =
     Inr (Arr [Num 10, Num 1, Num 20]) \<and>
   js_index [Num 0, Num 1, Num 2] 1 \<in> set [Num 10, Num 1, Num 20]"
proof -
  let ?raw = "[Num 10, Str ''invalid'', Num 20, Null]"
  let ?fb = "[Num 0, Num 1, Num 2]"
  have b: "(1::nat) < max (length ?raw) (length ?fb)" by simp
  have f: "asNumber (js_index ?raw 1) = Inl (TypeError ''Expected a number'')" by code_simp
  have u: "\<not> nullish (js_index ?fb 1)" by code_simp
  have r: "asHealingArray asNumber (Some ?fb) (Arr ?raw) = Inr (Arr [Num 10, Num 1, Num 20])"
    by code_simp
  obtain out where run: "asHealingArray asNumber (Some ?fb) (Arr ?raw) = Inr (Arr out)"
    and slots: "\<forall>i < max (length ?raw) (length ?fb).
        (\<forall>v. asNumber (js_index ?raw i) = Inr v \<longrightarrow>
           spec_array_slot asNumber (Some ?fb) ?raw i = [v] \<and> v \<in> set out) \<and>
        (\<forall>e. asNumber (js_index ?raw i) = Inl e \<and> \<not> nullish (js_index ?fb i) \<longrightarrow>
           spec_array_slot asNumber (Some ?fb) ?raw i = [js_index ?fb i] \<and>
           js_index ?fb i \<in> set out) \<and>
        (\<forall>e. asNumber (js_index ?raw i) = Inl e \<and> nullish (js_index ?fb i) \<longrightarrow>
           spec_array_slot asNumber (Some ?fb) ?raw i = [])"
    using asHealingArray_with_fallback [of asNumber ?fb ?raw] by blast
  from slots b f u have "js_index ?fb 1 \<in> set out" by blast
  moreover from run r have "out = [Num 10, Num 1, Num 20]" by simp
  ultimately show ?thesis using b f u r by blast
qed

section \<open>Shape mode of asHealingObject\<close>

lemma asObject_loop_guarded:
  "asObject_loop (map (\<lambda>(key, cleaner). (key, asMaybe cleaner (g key))) shape) raw out =
     Inr (fold (\<lambda>(key, cleaner).
                  obj_set key (case cleaner (js_get raw key) of Inr v \<Rightarrow> v | Inl e \<Rightarrow> g key))
            shape out)"
proof (induction shape arbitrary: out)
  case Nil
  then show ?case by simp
next
  case (Cons a shape)
  obtain key cleaner where a: "a = (key, cleaner)" by (cases a)
  have "asMaybe cleaner (g key) (js_get raw key) =
          Inr (case cleaner (js_get raw key) of Inr v \<Rightarrow> v | Inl e \<Rightarrow> g key)"
    by (simp add: asMaybe_def split: sum.splits)
  then show ?case
    by (simp add: a Cons)
qed

lemma keys_guarded:
  "map fst (map (\<lambda>(key, cleaner). (key, f key cleaner)) shape) = map fst shape"
  by (induction shape) auto

lemma asHealingObject_shape_eq:
  assumes "is_object raw"
  shows "asHealingObject_shape shape fallback raw =
     Inr (Obj (map (\<lambda>(key, cleaner).
                      (key, case cleaner (js_get raw key) of
                              Inr v \<Rightarrow> v
                            | Inl e \<Rightarrow> js_get (Obj fallback) key))
                 (obj_assign [] shape)))"
proof -
  define fields :: cleaner_shape where "fields = obj_assign [] shape"
  have wf: "wf_keys (map fst fields)"
    unfolding fields_def by (rule wf_keys_obj_assign) (simp add: wf_keys_def)
  let ?safeShape = "map (\<lambda>(key, cleaner). (key, asMaybe cleaner (js_get (Obj fallback) key))) fields"
  have "asObject ?safeShape raw =
          Inr (Obj (fold (\<lambda>(key, cleaner).
                  obj_set key (case cleaner (js_get raw key) of
                                 Inr v \<Rightarrow> v
                               | Inl e \<Rightarrow> js_get (Obj fallback) key))
            fields []))"
    using assms by (simp add: asObject_def asObject_loop_guarded)
  also have "fold (\<lambda>(key, cleaner).
                  obj_set key (case cleaner (js_get raw key) of
                                 Inr v \<Rightarrow> v
                               | Inl e \<Rightarrow> js_get (Obj fallback) key))
            fields [] =
          map (\<lambda>(key, cleaner).
                      (key, case cleaner (js_get raw key) of
                              Inr v \<Rightarrow> v
                            | Inl e \<Rightarrow> js_get (Obj fallback) key))
                 fields"
    using wf by (rule fold_obj_set_wf)
  finally show ?thesis
    unfolding asHealingObject_shape_def fields_def [symmetric] by (subst asMaybe_def) simp
qed

lemma asHealingObject_shape_not_object:
  "\<not> is_object raw \<Longrightarrow> asHealingObject_shape shape fallback raw = Inr (Obj fallback)"
  unfolding asHealingObject_shape_def by (subst asMaybe_def) (simp add: asObject_def)




section \<open>Totality\<close>

text \<open>
  Claim C5. For every raw input and every element cleaner, the cleaners built by
  \<open>asHealingObject\<close>, \<open>asHealingArray\<close> and \<open>asHealingTuple\<close> return a value: no failure
  of an element or field cleaner reaches the caller.

  In the key-value mode the call \<open>asMaybe(shape, fallback[key])(raw[key])\<close> stands outside
  the \<open>try\<close>: what it returns is stored, and what it throws reaches the caller. For the
  fallback \<open>{a: 'x'}\<close> and the raw input \<open>{valueOf: 5}\<close> the loop makes this call for the key
  \<open>valueOf\<close>, which the fallback does not have: the default it passes is the function
  \<open>Object.prototype.valueOf\<close>, and the cleaner rejects the raw value. Section 6 of the
  specification describes \<open>asMaybe\<close> for a default that is a value of the cleaner's type;
  the run ends as \<open>asMaybe\<close> ends at a default that is a function.
\<close>

theorem asHealingObject_open_inherited_default:
  "healing_keys (Obj [(''valueOf'', Num 5)]) (Some [(''a'', Str ''x'')]) = [''valueOf'', ''a''] \<and>
   map_of [(''a'', Str ''x'')] ''valueOf'' = None \<and>
   fallback_get (Some [(''a'', Str ''x'')]) ''valueOf'' = Fun ''Object.prototype.valueOf'' \<and>
   \<not> nullish (fallback_get (Some [(''a'', Str ''x'')]) ''valueOf'') \<and>
   asString (js_get (Obj [(''valueOf'', Num 5)]) ''valueOf'') = Inl (TypeError ''Expected a string'') \<and>
   asMaybeObject_loop asString (Some [(''a'', Str ''x'')]) (Obj [(''valueOf'', Num 5)])
       [''valueOf'', ''a''] [] =
     (case asMaybe asString (Fun ''Object.prototype.valueOf'') (Num 5) of
        Inr v \<Rightarrow>
          asMaybeObject_loop asString (Some [(''a'', Str ''x'')]) (Obj [(''valueOf'', Num 5)])
            [''a''] [(''valueOf'', v)]
      | Inl e \<Rightarrow> Inl e)"
proof -
  have k: "healing_keys (Obj [(''valueOf'', Num 5)]) (Some [(''a'', Str ''x'')]) = [''valueOf'', ''a'']"
    by code_simp
  have m: "map_of [(''a'', Str ''x'')] ''valueOf'' = None"
    by simp
  have f: "fallback_get (Some [(''a'', Str ''x'')]) ''valueOf'' = Fun ''Object.prototype.valueOf''"
    by code_simp
  have n: "\<not> nullish (fallback_get (Some [(''a'', Str ''x'')]) ''valueOf'')"
    by code_simp
  have c: "asString (js_get (Obj [(''valueOf'', Num 5)]) ''valueOf'') =
      Inl (TypeError ''Expected a string'')"
    by code_simp
  have l: "asMaybeObject_loop asString (Some [(''a'', Str ''x'')]) (Obj [(''valueOf'', Num 5)])
       [''valueOf'', ''a''] [] =
     (case asMaybe asString (Fun ''Object.prototype.valueOf'') (Num 5) of
        Inr v \<Rightarrow>
          asMaybeObject_loop asString (Some [(''a'', Str ''x'')]) (Obj [(''valueOf'', Num 5)])
            [''a''] [(''valueOf'', v)]
      | Inl e \<Rightarrow> Inl e)"
    by code_simp
  show ?thesis
    using k m f n c l by (intro conjI)
qed

section \<open>Input of the wrong container kind\<close>

text \<open>
  Claim C6. An input that is not of the expected container kind yields the empty
  container (the fallback, for the tuple). The three lemmas \<open>asMaybeObject_not_object\<close>,
  \<open>asHealingArray_not_array\<close> and \<open>asHealingTuple_not_array\<close> give this for every
  input the guard of each cleaner rejects. The guard of the key-value object cleaner is
  \<open>typeof raw !== 'object' || raw == null\<close>, which lets an array through: a non-empty
  array given to the object cleaner comes back as a non-empty object keyed by its indices.
\<close>

theorem asHealingObject_open_array_input:
  "asMaybeObject asString None (Arr [Str ''a'']) = Inr (Obj [(''0'', Str ''a'')])"
  by code_simp

section \<open>Key enumeration of the key-value mode\<close>

text \<open>
  The order "raw's own keys first, then the fallback-only keys" does not hold when the
  fallback brings a key that is an array index: \<open>Object.keys({ ...{b: 'x'}, ...{1: 'y'} })\<close>
  is \<open>['1', 'b']\<close>.
\<close>

theorem healing_keys_order_counterexample:
  "healing_keys (Obj [(''b'', Str ''x'')]) (Some [(''1'', Str ''y'')]) = [''1'', ''b''] \<and>
   healing_keys (Obj [(''b'', Str ''x'')]) (Some [(''1'', Str ''y'')]) \<noteq> [''b'', ''1'']"
  by code_simp

text \<open>
  Claim C8, amended. In the key-value mode, for a raw object (\<open>wf_keys\<close>: its keys are
  listed in an order \<open>Object.keys\<close> can report): without a fallback exactly the keys of
  the raw input are iterated; with a fallback exactly the union of the raw keys and the
  fallback keys is iterated. The order is the raw input's own keys first, in their order,
  followed by the fallback-only keys, provided no fallback-only key is an array index.
  Only keys come from the union: for a key that only the fallback has, the cleaner is
  given \<open>raw[key]\<close>, which is what the raw object inherits under that key (\<open>undefined\<close>,
  unless the key names a member of \<open>Object.prototype\<close>) and never the fallback's value; a
  cleaner that accepts every value binds the key to it.
\<close>

theorem healing_keys_enumeration:
  "healing_keys (Obj raw) None = map fst raw \<and>
   set (healing_keys (Obj raw) (Some fallback)) = set (map fst raw) \<union> set (map fst fallback) \<and>
   (wf_keys (map fst raw) \<and> distinct (map fst fallback) \<and>
    (\<forall>k \<in> set (map fst fallback). k \<notin> set (map fst raw) \<longrightarrow> array_index k = None) \<longrightarrow>
      healing_keys (Obj raw) (Some fallback) =
        map fst raw @ filter (\<lambda>k. k \<notin> set (map fst raw)) (map fst fallback)) \<and>
   (key \<in> set (map fst fallback) \<and> key \<notin> set (map fst raw) \<and> key \<noteq> ''__proto__'' \<longrightarrow>
      (\<exists>out. asMaybeObject Inr (Some fallback) (Obj raw) = Inr (Obj out) \<and>
             map_of out key = Some (object_inherited key)))"
proof (intro conjI impI)
  show "healing_keys (Obj raw) None = map fst raw"
    by (simp add: healing_keys_def own_props_def)
  show "set (healing_keys (Obj raw) (Some fallback)) = set (map fst raw) \<union> set (map fst fallback)"
    by (simp add: healing_keys_def own_props_def set_keys_obj_assign del: set_map)
next
  assume a: "wf_keys (map fst raw) \<and> distinct (map fst fallback) \<and>
    (\<forall>k \<in> set (map fst fallback). k \<notin> set (map fst raw) \<longrightarrow> array_index k = None)"
  then have "obj_assign [] raw = raw" by (simp add: obj_assign_self)
  then have "healing_keys (Obj raw) (Some fallback) = map fst (obj_assign raw fallback)"
    by (simp add: healing_keys_def own_props_def)
  also have "\<dots> = map fst raw @ filter (\<lambda>k. k \<notin> set (map fst raw)) (map fst fallback)"
    using a by (intro keys_obj_assign) blast+
  finally show "healing_keys (Obj raw) (Some fallback) =
        map fst raw @ filter (\<lambda>k. k \<notin> set (map fst raw)) (map fst fallback)" .
next
  assume a: "key \<in> set (map fst fallback) \<and> key \<notin> set (map fst raw) \<and> key \<noteq> ''__proto__''"
  then have "key \<in> set (healing_keys (Obj raw) (Some fallback))"
    by (simp add: healing_keys_def own_props_def set_keys_obj_assign del: set_map)
  moreover have "is_object (Obj raw)" by (simp add: is_object_def)
  ultimately obtain out where run: "asMaybeObject Inr (Some fallback) (Obj raw) = Inr (Obj out)"
    and at: "map_of out key = spec_object_slot Inr (Some fallback) (Obj raw) key"
    using asMaybeObject_lookup by blast
  from a have "map_of raw key = None" by (simp add: map_of_eq_None_iff)
  then have "js_get (Obj raw) key = object_inherited key" by (simp add: js_get_def)
  with a at have "map_of out key = Some (object_inherited key)" by (simp add: spec_object_slot_def)
  with run show "\<exists>out. asMaybeObject Inr (Some fallback) (Obj raw) = Inr (Obj out) \<and>
             map_of out key = Some (object_inherited key)" by blast
qed

text \<open>The input of the repository's test "drops invalid properties if fallback is missing entry".\<close>

theorem healing_keys_enumeration_witness:
  "wf_keys (map fst [(''name'', Str ''John''), (''age'', Num 67)]) \<and>
   distinct (map fst [(''name'', Str ''Unknown''), (''orientation'', Str ''bitcoiner'')]) \<and>
   array_index ''orientation'' = None \<and>
   healing_keys (Obj [(''name'', Str ''John''), (''age'', Num 67)])
     (Some [(''name'', Str ''Unknown''), (''orientation'', Str ''bitcoiner'')]) =
     [''name'', ''age'', ''orientation''] \<and>
   ''orientation'' \<in> set (map fst [(''name'', Str ''Unknown''), (''orientation'', Str ''bitcoiner'')]) \<and>
   ''orientation'' \<notin> set (map fst [(''name'', Str ''John''), (''age'', Num 67)]) \<and>
   ''orientation'' \<noteq> ''__proto__'' \<and>
   (\<exists>out. asMaybeObject Inr (Some [(''name'', Str ''Unknown''), (''orientation'', Str ''bitcoiner'')])
            (Obj [(''name'', Str ''John''), (''age'', Num 67)]) = Inr (Obj out) \<and>
          map_of out ''orientation'' = Some Undefined)"
proof -
  let ?raw = "[(''name'', Str ''John''), (''age'', Num 67)]"
  let ?fb = "[(''name'', Str ''Unknown''), (''orientation'', Str ''bitcoiner'')]"
  have h1: "wf_keys (map fst ?raw)" by code_simp
  have h2: "distinct (map fst ?fb)" by simp
  have h3: "\<forall>k \<in> set (map fst ?fb). k \<notin> set (map fst ?raw) \<longrightarrow> array_index k = None"
    by (simp add: array_index_def digit_value_def)
  have h4: "''orientation'' \<in> set (map fst ?fb) \<and> ''orientation'' \<notin> set (map fst ?raw) \<and>
            ''orientation'' \<noteq> ''__proto__''"
    by simp
  have u: "object_inherited ''orientation'' = Undefined" by code_simp
  note inst = healing_keys_enumeration [of ?raw ?fb "''orientation''"]
  from inst h1 h2 h3
  have "healing_keys (Obj ?raw) (Some ?fb) =
          map fst ?raw @ filter (\<lambda>k. k \<notin> set (map fst ?raw)) (map fst ?fb)"
    by blast
  then have keys: "healing_keys (Obj ?raw) (Some ?fb) = [''name'', ''age'', ''orientation'']"
    by simp
  from inst h4
  have "\<exists>out. asMaybeObject Inr (Some ?fb) (Obj ?raw) = Inr (Obj out) \<and>
          map_of out ''orientation'' = Some (object_inherited ''orientation'')"
    by blast
  then have "\<exists>out. asMaybeObject Inr (Some ?fb) (Obj ?raw) = Inr (Obj out) \<and>
          map_of out ''orientation'' = Some Undefined"
    by (simp only: u)
  moreover have "array_index ''orientation'' = None"
    by (simp add: array_index_def digit_value_def)
  ultimately show ?thesis using h1 h2 h4 keys by blast
qed

section \<open>Idempotence\<close>

text \<open>Healing an already healed value, one combinator at a time.\<close>

subsection \<open>Arrays and tuples\<close>

lemma js_index_in: "i < length xs \<Longrightarrow> js_index xs i = xs ! i"
  by (simp add: js_index_def)

lemma concat_slots_id:
  assumes "\<And>i. i < length ys \<Longrightarrow> slot i = [ys ! i]"
  shows "concat (map slot [0..<length ys]) = ys"
proof -
  have "map slot [0..<length ys] = map (\<lambda>y. [y]) ys"
    by (rule nth_equalityI) (simp_all add: assms)
  then show ?thesis by simp
qed

lemma spec_array_slot_accepted:
  "y \<in> set (spec_array_slot c None xs i) \<Longrightarrow> \<exists>x. c x = Inr y"
  by (auto simp: spec_array_slot_def fallback_at_def nullish_def split: sum.splits)

lemma asHealingArray_idem_no_fallback:
  assumes H: "\<forall>x v. c x = Inr v \<longrightarrow> c v = Inr v"
    and run: "asHealingArray c None raw = Inr out"
  shows "asHealingArray c None out = Inr out"
proof (cases "is_array raw")
  case False
  with run have "out = Arr []" by (simp add: asHealingArray_not_array)
  then show ?thesis by (simp add: asHealingArray_eq)
next
  case True
  then obtain xs where raw: "raw = Arr xs" by (cases raw) (simp_all add: is_array_def)
  define ys where "ys = concat (map (spec_array_slot c None xs) [0..<length xs])"
  from run have out: "out = Arr ys" by (simp add: raw asHealingArray_eq ys_def)
  have fixed: "c y = Inr y" if "y \<in> set ys" for y
  proof -
    from that obtain i where "y \<in> set (spec_array_slot c None xs i)" by (auto simp: ys_def)
    then obtain x where "c x = Inr y" using spec_array_slot_accepted by blast
    with H show ?thesis by blast
  qed
  have "spec_array_slot c None ys i = [ys ! i]" if "i < length ys" for i
    using that fixed [of "ys ! i"]
    by (simp add: spec_array_slot_def js_index_def)
  then have "concat (map (spec_array_slot c None ys) [0..<length ys]) = ys"
    by (rule concat_slots_id)
  then show ?thesis by (simp add: out asHealingArray_eq)
qed

lemma asHealingTuple_idem:
  assumes H: "\<forall>x v. c x = Inr v \<longrightarrow> c v = Inr v"
    and F: "\<forall>f \<in> set fb. \<forall>v. c f = Inr v \<longrightarrow> v = f"
    and run: "asHealingTuple c fb raw = Inr out"
  shows "asHealingTuple c fb out = Inr out"
proof -
  define heal where "heal ys j = (case c (js_index ys j) of Inr v \<Rightarrow> v | Inl e \<Rightarrow> js_index fb j)" for ys j
  have tuple: "asHealingTuple c fb (Arr ys) = Inr (Arr (map (heal ys) [0..<length fb]))" for ys
    by (simp add: asHealingTuple_eq heal_def)
  have keep: "(case c y of Inr v \<Rightarrow> v | Inl e \<Rightarrow> js_index fb j) = y"
    if "j < length fb" and "y = fb ! j \<or> (\<exists>x. c x = Inr y)" for j y
  proof (cases "c y")
    case (Inl e)
    with that H show ?thesis by (auto simp: js_index_in)
  next
    case (Inr v)
    from that(2) show ?thesis
    proof
      assume "y = fb ! j"
      with F that(1) Inr show ?thesis by auto
    next
      assume "\<exists>x. c x = Inr y"
      with H Inr show ?thesis by auto
    qed
  qed
  have again: "map (heal ys) [0..<length fb] = ys"
    if len: "length ys = length fb"
      and el: "\<And>j. j < length fb \<Longrightarrow> ys ! j = fb ! j \<or> (\<exists>x. c x = Inr (ys ! j))" for ys
    by (rule nth_equalityI) (simp_all add: len heal_def js_index_in keep el)
  show ?thesis
  proof (cases "is_array raw")
    case False
    with run have out: "out = Arr fb" by (simp add: asHealingTuple_not_array)
    show ?thesis unfolding out tuple using again [of fb] by simp
  next
    case True
    then obtain xs where raw: "raw = Arr xs" by (cases raw) (simp_all add: is_array_def)
    from run have out: "out = Arr (map (heal xs) [0..<length fb])" by (simp add: raw tuple)
    have "map (heal xs) [0..<length fb] ! j = fb ! j \<or>
          (\<exists>x. c x = Inr (map (heal xs) [0..<length fb] ! j))" if "j < length fb" for j
      using that by (auto simp: heal_def js_index_in split: sum.splits)
    then show ?thesis unfolding out tuple using again [of "map (heal xs) [0..<length fb]"] by simp
  qed
qed

lemma spec_array_slot_again:
  assumes H: "\<forall>x v. c x = Inr v \<longrightarrow> c v = Inr v"
    and y: "(\<exists>x. c x = Inr y) \<or>
            (i < length fb \<and> y = fb ! i \<and> \<not> nullish (fb ! i) \<and> (\<forall>v. c (fb ! i) = Inr v \<longrightarrow> v = fb ! i))"
    and at: "js_index ys i = y"
  shows "spec_array_slot c (Some fb) ys i = [y]"
proof (cases "c y")
  case (Inr v)
  with H y have "v = y" by auto
  with Inr at show ?thesis by (simp add: spec_array_slot_def)
next
  case (Inl e)
  with H y have "i < length fb" and "y = fb ! i" and "\<not> nullish (fb ! i)" by auto
  with Inl at show ?thesis by (simp add: spec_array_slot_def fallback_at_def js_index_in)
qed

lemma asHealingArray_idem_fallback:
  assumes H: "\<forall>x v. c x = Inr v \<longrightarrow> c v = Inr v"
    and F: "\<forall>f \<in> set fb. \<not> nullish f \<and> (\<forall>v. c f = Inr v \<longrightarrow> v = f)"
    and arr: "is_array raw"
    and run: "asHealingArray c (Some fb) raw = Inr out"
  shows "asHealingArray c (Some fb) out = Inr out"
proof -
  from arr obtain xs where raw: "raw = Arr xs" by (cases raw) (simp_all add: is_array_def)
  define n where "n = max (length xs) (length fb)"
  define slot where "slot = spec_array_slot c (Some fb) xs"
  define heal where "heal j = (case c (js_index xs j) of Inr v \<Rightarrow> v | Inl e \<Rightarrow> fb ! j)" for j
  define tail where "tail = concat (map slot [length fb..<n])"
  define ys where "ys = map heal [0..<length fb] @ tail"
  have usable: "\<not> nullish (fb ! j)" and fixed: "\<forall>v. c (fb ! j) = Inr v \<longrightarrow> v = fb ! j"
    if "j < length fb" for j
    using F that by simp_all
  have head: "slot j = [heal j]" if "j < length fb" for j
    using that usable [OF that]
    by (simp add: slot_def heal_def spec_array_slot_def fallback_at_def js_index_in split: sum.splits)
  have accepted: "\<exists>x. c x = Inr y" if "y \<in> set tail" for y
  proof -
    from that obtain j where j: "length fb \<le> j" and y: "y \<in> set (slot j)"
      by (auto simp: tail_def)
    from j have "nullish (fallback_at (Some fb) j)"
      by (simp add: fallback_at_def js_index_def nullish_def)
    with y show ?thesis
      by (auto simp: slot_def spec_array_slot_def split: sum.splits)
  qed
  have "[0..<n] = [0..<length fb] @ [length fb..<n]"
    using upt_add_eq_append [of 0 "length fb" "n - length fb"] by (simp add: n_def)
  then have "concat (map slot [0..<n]) = concat (map slot [0..<length fb]) @ tail"
    by (simp add: tail_def)
  moreover have "map slot [0..<length fb] = map (\<lambda>j. [heal j]) [0..<length fb]"
    by (rule map_cong) (simp_all add: head)
  ultimately have "concat (map slot [0..<n]) = ys"
    by (simp add: ys_def concat_map_singleton)
  with run have out: "out = Arr ys"
    by (simp add: raw asHealingArray_eq slot_def n_def)
  have len: "max (length ys) (length fb) = length ys"
    by (simp add: ys_def)
  have "spec_array_slot c (Some fb) ys i = [ys ! i]" if i: "i < length ys" for i
  proof (rule spec_array_slot_again [OF H])
    show "js_index ys i = ys ! i" using i by (rule js_index_in)
    show "(\<exists>x. c x = Inr (ys ! i)) \<or>
          (i < length fb \<and> ys ! i = fb ! i \<and> \<not> nullish (fb ! i) \<and>
           (\<forall>v. c (fb ! i) = Inr v \<longrightarrow> v = fb ! i))"
    proof (cases "i < length fb")
      case True
      then have "ys ! i = heal i" by (simp add: ys_def nth_append)
      then show ?thesis
        using True usable [OF True] fixed [OF True]
        by (cases "c (js_index xs i)") (auto simp: heal_def)
    next
      case False
      with i have "ys ! i \<in> set tail"
        by (simp add: ys_def nth_append)
      then show ?thesis using accepted by blast
    qed
  qed
  then have "concat (map (spec_array_slot c (Some fb) ys) [0..<length ys]) = ys"
    by (rule concat_slots_id)
  then show ?thesis
    by (simp add: out asHealingArray_eq len)
qed

subsection \<open>Key-value objects\<close>

lemma js_get_entry:
  "distinct (map fst kvs) \<Longrightarrow> (k, v) \<in> set kvs \<Longrightarrow> js_get (Obj kvs) k = v"
  by (simp add: js_get_def)

lemma asMaybeObject_idem_no_fallback:
  assumes H: "\<forall>x v. c x = Inr v \<longrightarrow> c v = Inr v"
    and run: "asMaybeObject c None raw = Inr out"
  shows "asMaybeObject c None out = Inr out"
proof (cases "is_object raw")
  case False
  with run have "out = Obj []" by (simp add: asMaybeObject_not_object)
  then show ?thesis
    by (simp add: asMaybeObject_def is_object_def healing_keys_def own_props_def)
next
  case True
  define kvs where "kvs = fold (put_slot (spec_object_slot c None raw)) (healing_keys raw None) []"
  from run have out: "out = Obj kvs" by (simp add: asMaybeObject_eq [OF True] kvs_def)
  have wf: "wf_keys (map fst kvs)"
    unfolding kvs_def by (rule wf_keys_fold_put_slot) (simp add: wf_keys_def)
  then have dist: "distinct (map fst kvs)" by (simp add: wf_keys_def)
  have again: "spec_object_slot c None (Obj kvs) k = Some v" if "(k, v) \<in> set kvs" for k v
  proof -
    from that have "spec_object_slot c None raw k = Some v"
      unfolding kvs_def by (simp add: first_pass_entries)
    then have "k \<noteq> ''__proto__''" and "c (js_get raw k) = Inr v"
      by (auto simp: spec_object_slot_def fallback_get_def nullish_def split: if_splits sum.splits)
    with H have "c v = Inr v" by blast
    with \<open>k \<noteq> ''__proto__''\<close> js_get_entry [OF dist that] show ?thesis
      by (simp add: spec_object_slot_def)
  qed
  have "fold (put_slot (spec_object_slot c None (Obj kvs))) (map fst kvs) [] = kvs"
    using wf again by (intro fold_put_slot_rebuild) auto
  then show ?thesis
    unfolding out by (simp add: asMaybeObject_def is_object_def asMaybeObject_loop_eq
        healing_keys_def own_props_def)
qed

lemma asMaybeObject_idem_fallback:
  assumes H: "\<forall>x v. c x = Inr v \<longrightarrow> c v = Inr v"
    and F: "\<forall>(k, f) \<in> set fb. \<not> nullish f \<and> (\<forall>v. c f = Inr v \<longrightarrow> v = f)"
    and N: "\<forall>k \<in> set (map fst r). \<not> inherited_default fb k"
    and run: "asMaybeObject c (Some fb) (Obj r) = Inr out"
  shows "asMaybeObject c (Some fb) out = Inr out"
proof -
  have obj: "is_object (Obj r)" by (simp add: is_object_def)
  define keys1 where "keys1 = healing_keys (Obj r) (Some fb)"
  define kvs where "kvs = fold (put_slot (spec_object_slot c (Some fb) (Obj r))) keys1 []"
  from run have out: "out = Obj kvs" by (simp add: asMaybeObject_eq [OF obj] kvs_def keys1_def)
  have wf: "wf_keys (map fst kvs)"
    unfolding kvs_def by (rule wf_keys_fold_put_slot) (simp add: wf_keys_def)
  then have dist: "distinct (map fst kvs)" by (simp add: wf_keys_def)
  have keys1: "set keys1 = set (map fst r) \<union> set (map fst fb)"
    by (simp add: keys1_def healing_keys_def own_props_def set_keys_obj_assign del: set_map)
  have entry: "k \<in> set keys1 \<and> spec_object_slot c (Some fb) (Obj r) k = Some v"
    if "(k, v) \<in> set kvs" for k v
    using that unfolding kvs_def by (rule first_pass_entries)
  have fb_entry: "\<not> nullish (fallback_get (Some fb) k) \<and>
                  (\<forall>v. c (fallback_get (Some fb) k) = Inr v \<longrightarrow> v = fallback_get (Some fb) k)"
    if "k \<in> set (map fst fb)" for k
  proof -
    from that obtain f where f: "map_of fb k = Some f"
      by (metis map_of_eq_None_iff not_Some_eq set_map)
    then have "(k, f) \<in> set fb" by (rule map_of_SomeD)
    with F f show ?thesis by (auto simp: fallback_get_def js_get_def)
  qed
  have fb_missing: "nullish (fallback_get (Some fb) k)"
    if "k \<in> set keys1" and "k \<notin> set (map fst fb)" and "k \<noteq> ''__proto__''" for k
  proof -
    from that keys1 have "k \<in> set (map fst r)" by blast
    with N have "\<not> inherited_default fb k" by blast
    moreover from that(2) have none: "map_of fb k = None" by (simp add: map_of_eq_None_iff)
    ultimately have "\<not> is_function (object_inherited k)" by (simp add: inherited_default_def)
    moreover from none have "fallback_get (Some fb) k = object_inherited k"
      by (simp add: fallback_get_def js_get_def)
    ultimately show ?thesis
      using that(3) by (simp add: object_inherited_def is_function_def nullish_def split: if_splits)
  qed
  have no_proto: "''__proto__'' \<notin> set (map fst kvs)"
  proof
    assume "''__proto__'' \<in> set (map fst kvs)"
    then obtain v where "(''__proto__'', v) \<in> set kvs" by auto
    from entry [OF this] show False by (simp add: spec_object_slot_def)
  qed
  have covered: "k \<in> set (map fst kvs) \<or> k = ''__proto__''" if k: "k \<in> set (map fst fb)" for k
  proof (cases "k = ''__proto__''")
    case True
    then show ?thesis by simp
  next
    case False
    have "k \<in> set keys1" using k keys1 by blast
    moreover have "spec_object_slot c (Some fb) (Obj r) k \<noteq> None"
      using False fb_entry [OF k] by (simp add: spec_object_slot_def split: sum.splits)
    ultimately have "map_of kvs k \<noteq> None"
      unfolding kvs_def by (auto simp: map_of_fold_put_slot)
    then show ?thesis by (simp add: in_keys_iff del: set_map)
  qed
  define extra where
    "extra = (if ''__proto__'' \<in> set (map fst fb) \<and> ''__proto__'' \<notin> set (map fst kvs)
              then [''__proto__''] else [])"
  have keys2: "healing_keys (Obj kvs) (Some fb) = map fst kvs @ extra"
  proof -
    have "obj_assign [] kvs = kvs" using wf by (rule obj_assign_self)
    then have "healing_keys (Obj kvs) (Some fb) = map fst (obj_assign kvs fb)"
      by (simp add: healing_keys_def own_props_def)
    also have "\<dots> = map fst kvs @ extra"
      unfolding extra_def using covered array_index_proto
      by (intro keys_obj_assign_extra) blast+
    finally show ?thesis .
  qed
  let ?slot2 = "spec_object_slot c (Some fb) (Obj kvs)"
  have again: "?slot2 k = Some v" if kv: "(k, v) \<in> set kvs" for k v
  proof -
    from entry [OF kv] have k1: "k \<in> set keys1"
      and s1: "spec_object_slot c (Some fb) (Obj r) k = Some v" by simp_all
    from s1 have k: "k \<noteq> ''__proto__''" by (auto simp: spec_object_slot_def)
    have get: "js_get (Obj kvs) k = v" using dist kv by (rule js_get_entry)
    show ?thesis
    proof (cases "c (js_get (Obj r) k)")
      case (Inr w)
      with s1 k have "w = v" by (simp add: spec_object_slot_def)
      with Inr H have "c v = Inr v" by blast
      with k get show ?thesis by (simp add: spec_object_slot_def)
    next
      case (Inl e)
      with s1 k have usable: "\<not> nullish (fallback_get (Some fb) k)"
        and v: "v = fallback_get (Some fb) k"
        by (auto simp: spec_object_slot_def split: if_splits)
      from usable fb_missing [OF k1 _ k] have "k \<in> set (map fst fb)" by blast
      from fb_entry [OF this] have "\<forall>w. c v = Inr w \<longrightarrow> w = v" by (simp add: v)
      with k get usable v show ?thesis
        by (cases "c v") (simp_all add: spec_object_slot_def)
    qed
  qed
  have "fold (put_slot ?slot2) (map fst kvs) [] = kvs"
    using wf again by (intro fold_put_slot_rebuild) auto
  moreover have "fold (put_slot ?slot2) extra kvs = kvs"
    by (simp add: extra_def put_slot_def spec_object_slot_def)
  ultimately have "fold (put_slot ?slot2) (healing_keys (Obj kvs) (Some fb)) [] = kvs"
    by (simp add: keys2)
  then show ?thesis
    unfolding out by (simp add: asMaybeObject_def is_object_def asMaybeObject_loop_eq)
qed

subsection \<open>Shape objects\<close>

lemma js_get_nth:
  "distinct (map fst kvs) \<Longrightarrow> i < length kvs \<Longrightarrow> js_get (Obj kvs) (fst (kvs ! i)) = snd (kvs ! i)"
  using js_get_entry [of kvs "fst (kvs ! i)" "snd (kvs ! i)"] by simp

lemma asHealingObject_shape_idem:
  assumes HF: "\<forall>(k, c) \<in> set (obj_assign [] shape).
               (\<forall>x v. c x = Inr v \<longrightarrow> c v = Inr v) \<and>
               (\<forall>v. c (js_get (Obj fb) k) = Inr v \<longrightarrow> v = js_get (Obj fb) k)"
    and same: "is_object raw \<or> map fst fb = map fst (obj_assign [] shape)"
    and run: "asHealingObject_shape shape fb raw = Inr out"
  shows "asHealingObject_shape shape fb out = Inr out"
proof -
  define fields :: cleaner_shape where "fields = obj_assign [] shape"
  define heal where
    "heal r = (\<lambda>(key, cleaner :: cleaner). (key, case cleaner (js_get r key) of
                                        Inr v \<Rightarrow> v
                                      | Inl e \<Rightarrow> js_get (Obj fb) key))" for r :: jsval
  have shape_run: "asHealingObject_shape shape fb r = Inr (Obj (map (heal r) fields))"
    if "is_object r" for r
    unfolding heal_def fields_def using that by (rule asHealingObject_shape_eq)
  have wf: "wf_keys (map fst fields)"
    unfolding fields_def by (rule wf_keys_obj_assign) (simp add: wf_keys_def)
  then have dist: "distinct (map fst fields)" by (simp add: wf_keys_def)
  have again: "map (heal (Obj kvs)) fields = kvs"
    if keys: "map fst kvs = map fst fields"
      and good: "\<And>i. i < length fields \<Longrightarrow>
                   (\<exists>x. snd (fields ! i) x = Inr (snd (kvs ! i))) \<or>
                   snd (kvs ! i) = js_get (Obj fb) (fst (fields ! i))" for kvs
  proof (rule nth_equalityI)
    from keys have len: "length kvs = length fields" by (metis length_map)
    then show "length (map (heal (Obj kvs)) fields) = length kvs" by simp
    fix i assume "i < length (map (heal (Obj kvs)) fields)"
    then have i: "i < length fields" by simp
    obtain k c where kc: "fields ! i = (k, c)" by (cases "fields ! i")
    from i kc have mem: "(k, c) \<in> set fields" by (metis nth_mem)
    from keys i len have fst_i: "fst (kvs ! i) = k"
      by (metis kc fst_conv nth_map)
    from keys dist have "distinct (map fst kvs)" by simp
    from js_get_nth [OF this] i len fst_i have get: "js_get (Obj kvs) k = snd (kvs ! i)"
      by auto
    from HF mem have H: "\<forall>x v. c x = Inr v \<longrightarrow> c v = Inr v"
      and F: "\<forall>v. c (js_get (Obj fb) k) = Inr v \<longrightarrow> v = js_get (Obj fb) k"
      by (auto simp: fields_def)
    from good [OF i] have "(\<exists>x. c x = Inr (snd (kvs ! i))) \<or> snd (kvs ! i) = js_get (Obj fb) k"
      by (simp add: kc)
    then have "(case c (snd (kvs ! i)) of Inr v \<Rightarrow> v | Inl e \<Rightarrow> js_get (Obj fb) k) = snd (kvs ! i)"
      using H F by (cases "c (snd (kvs ! i))") auto
    then have "heal (Obj kvs) (k, c) = kvs ! i"
      using fst_i by (simp add: heal_def get prod_eq_iff)
    then show "map (heal (Obj kvs)) fields ! i = kvs ! i"
      using i by (simp add: kc)
  qed
  show ?thesis
  proof (cases "is_object raw")
    case False
    with run have out: "out = Obj fb" by (simp add: asHealingObject_shape_not_object)
    from False same have same': "map fst fb = map fst fields" by (simp add: fields_def)
    have "snd (fb ! i) = js_get (Obj fb) (fst (fields ! i))" if i: "i < length fields" for i
    proof -
      from same' have len: "length fb = length fields" by (metis length_map)
      from same' dist have d: "distinct (map fst fb)" by simp
      from same' i len have "fst (fb ! i) = fst (fields ! i)" by (metis nth_map)
      with js_get_nth [OF d, of i] i len show ?thesis by simp
    qed
    with again [OF same'] have "map (heal (Obj fb)) fields = fb" by blast
    then show ?thesis
      unfolding out using shape_run [of "Obj fb"] by (simp add: is_object_def)
  next
    case True
    from run have out: "out = Obj (map (heal raw) fields)" by (simp add: shape_run [OF True])
    have keys: "map fst (map (heal raw) fields) = map fst fields"
      unfolding heal_def by (rule keys_guarded)
    have "(\<exists>x. snd (fields ! i) x = Inr (snd (map (heal raw) fields ! i))) \<or>
          snd (map (heal raw) fields ! i) = js_get (Obj fb) (fst (fields ! i))"
      if i: "i < length fields" for i
    proof -
      obtain k c where kc: "fields ! i = (k, c)" by (cases "fields ! i")
      show ?thesis
        using i by (cases "c (js_get raw k)") (auto simp: kc heal_def)
    qed
    with again [OF keys] have "map (heal (Obj (map (heal raw) fields))) fields = map (heal raw) fields"
      by blast
    then show ?thesis
      unfolding out using shape_run [of "Obj (map (heal raw) fields)"] by (simp add: is_object_def)
  qed
qed

subsection \<open>All combinators\<close>

lemma asString_fixes: "\<forall>x v. asString x = Inr v \<longrightarrow> asString v = Inr v"
  by (auto simp: asString_def split: jsval.splits)

lemma asNumber_fixes: "\<forall>x v. asNumber x = Inr v \<longrightarrow> asNumber v = Inr v"
  by (auto simp: asNumber_def split: jsval.splits)

lemma asOptional_asString_fixes:
  "\<forall>x v. asOptional asString x = Inr v \<longrightarrow> asOptional asString v = Inr v"
  by (auto simp: asOptional_def asString_def nullish_def split: if_splits jsval.splits)

lemma asNumeric_fixes: "\<forall>x v. asNumeric x = Inr v \<longrightarrow> asNumeric v = Inr v"
  by (auto simp: asNumeric_def split: jsval.splits if_splits option.splits)

text \<open>
  The cleaners \<open>asString\<close>, \<open>asOptional asString\<close> and \<open>asNumeric\<close> fix their own outputs,
  by the lemmas above. Idempotence fails for them in each of these pairs of runs, the
  second on the output of the first:
  \<^item> \<open>asHealingArray\<close> with a fallback maps a raw input that is not an array to \<open>[]\<close>,
    and maps \<open>[]\<close> to the fallback list (both are tests of the repository);
  \<^item> \<open>asHealingArray\<close> with a fallback that has a hole drops a rejected element at the
    hole, which moves the later elements to other indices;
  \<^item> the key-value \<open>asHealingObject\<close> with a fallback maps \<open>null\<close> to \<open>{}\<close>, and \<open>{}\<close>
    to the fallback;
  \<^item> with a null fallback entry and a cleaner that accepts \<open>undefined\<close>, a key dropped in
    the first run comes back in the second, read as \<open>undefined\<close>;
  \<^item> the tuple, the array, the key-value object and the shape object return a fallback
    entry as it is where the cleaner rejects the raw value, and the cleaner converts
    that entry in the second run;
  \<^item> the shape mode returns the fallback record as it is for \<open>null\<close>, with a field the
    shape does not declare or in its own field order, and returns the shape's fields
    in the shape's order for that record.
\<close>

theorem healing_idempotence_counterexample:
  "asHealingArray asString (Some [Str ''default'']) Null = Inr (Arr []) \<and>
   asHealingArray asString (Some [Str ''default'']) (Arr []) = Inr (Arr [Str ''default'']) \<and>
   asHealingArray asString (Some [Str ''first'', Undefined, Str ''third''])
       (Arr [Str ''valid'', Num 7]) = Inr (Arr [Str ''valid'', Str ''third'']) \<and>
   asHealingArray asString (Some [Str ''first'', Undefined, Str ''third''])
       (Arr [Str ''valid'', Str ''third'']) = Inr (Arr [Str ''valid'', Str ''third'', Str ''third'']) \<and>
   asMaybeObject asString (Some [(''name'', Str ''Unknown'')]) Null = Inr (Obj []) \<and>
   asMaybeObject asString (Some [(''name'', Str ''Unknown'')]) (Obj []) =
     Inr (Obj [(''name'', Str ''Unknown'')]) \<and>
   asMaybeObject (asOptional asString) (Some [(''a'', Null)]) (Obj [(''a'', Num 1)]) = Inr (Obj []) \<and>
   asMaybeObject (asOptional asString) (Some [(''a'', Null)]) (Obj []) =
     Inr (Obj [(''a'', Undefined)]) \<and>
   asHealingTuple asNumeric [Str ''7''] (Arr [Str ''bad'']) = Inr (Arr [Str ''7'']) \<and>
   asHealingTuple asNumeric [Str ''7''] (Arr [Str ''7'']) = Inr (Arr [Num 7]) \<and>
   asHealingArray asNumeric (Some [Str ''7'']) (Arr [Str ''bad'']) = Inr (Arr [Str ''7'']) \<and>
   asHealingArray asNumeric (Some [Str ''7'']) (Arr [Str ''7'']) = Inr (Arr [Num 7]) \<and>
   asMaybeObject asNumeric (Some [(''a'', Str ''7'')]) (Obj [(''a'', Str ''bad'')]) =
     Inr (Obj [(''a'', Str ''7'')]) \<and>
   asMaybeObject asNumeric (Some [(''a'', Str ''7'')]) (Obj [(''a'', Str ''7'')]) =
     Inr (Obj [(''a'', Num 7)]) \<and>
   asHealingObject_shape [(''n'', asNumeric)] [(''n'', Str ''7'')] (Obj [(''n'', Str ''bad'')]) =
     Inr (Obj [(''n'', Str ''7'')]) \<and>
   asHealingObject_shape [(''n'', asNumeric)] [(''n'', Str ''7'')] (Obj [(''n'', Str ''7'')]) =
     Inr (Obj [(''n'', Num 7)]) \<and>
   asHealingObject_shape [(''name'', asString)]
       [(''name'', Str ''Unknown''), (''extra'', Num 1)] Null =
     Inr (Obj [(''name'', Str ''Unknown''), (''extra'', Num 1)]) \<and>
   asHealingObject_shape [(''name'', asString)]
       [(''name'', Str ''Unknown''), (''extra'', Num 1)]
       (Obj [(''name'', Str ''Unknown''), (''extra'', Num 1)]) =
     Inr (Obj [(''name'', Str ''Unknown'')]) \<and>
   asHealingObject_shape [(''name'', asString), (''age'', asNumber)]
       [(''age'', Num 0), (''name'', Str ''Unknown'')] Null =
     Inr (Obj [(''age'', Num 0), (''name'', Str ''Unknown'')]) \<and>
   asHealingObject_shape [(''name'', asString), (''age'', asNumber)]
       [(''age'', Num 0), (''name'', Str ''Unknown'')]
       (Obj [(''age'', Num 0), (''name'', Str ''Unknown'')]) =
     Inr (Obj [(''name'', Str ''Unknown''), (''age'', Num 0)])"
proof -
  have r1: "asHealingArray asString (Some [Str ''default'']) Null = Inr (Arr [])"
    by code_simp
  have r2: "asHealingArray asString (Some [Str ''default'']) (Arr []) = Inr (Arr [Str ''default''])"
    by code_simp
  have r3: "asHealingArray asString (Some [Str ''first'', Undefined, Str ''third''])
       (Arr [Str ''valid'', Num 7]) = Inr (Arr [Str ''valid'', Str ''third''])"
    by code_simp
  have r4: "asHealingArray asString (Some [Str ''first'', Undefined, Str ''third''])
       (Arr [Str ''valid'', Str ''third'']) = Inr (Arr [Str ''valid'', Str ''third'', Str ''third''])"
    by code_simp
  have r5: "asMaybeObject asString (Some [(''name'', Str ''Unknown'')]) Null = Inr (Obj [])"
    by code_simp
  have r6: "asMaybeObject asString (Some [(''name'', Str ''Unknown'')]) (Obj []) =
     Inr (Obj [(''name'', Str ''Unknown'')])"
    by code_simp
  have r7: "asMaybeObject (asOptional asString) (Some [(''a'', Null)]) (Obj [(''a'', Num 1)]) = Inr (Obj [])"
    by code_simp
  have r8: "asMaybeObject (asOptional asString) (Some [(''a'', Null)]) (Obj []) =
     Inr (Obj [(''a'', Undefined)])"
    by code_simp
  have t1: "asHealingTuple asNumeric [Str ''7''] (Arr [Str ''bad'']) = Inr (Arr [Str ''7''])"
    by code_simp
  have t2: "asHealingTuple asNumeric [Str ''7''] (Arr [Str ''7'']) = Inr (Arr [Num 7])"
    by code_simp
  have t3: "asHealingArray asNumeric (Some [Str ''7'']) (Arr [Str ''bad'']) = Inr (Arr [Str ''7''])"
    by code_simp
  have t4: "asHealingArray asNumeric (Some [Str ''7'']) (Arr [Str ''7'']) = Inr (Arr [Num 7])"
    by code_simp
  have t5: "asMaybeObject asNumeric (Some [(''a'', Str ''7'')]) (Obj [(''a'', Str ''bad'')]) =
     Inr (Obj [(''a'', Str ''7'')])"
    by code_simp
  have t6: "asMaybeObject asNumeric (Some [(''a'', Str ''7'')]) (Obj [(''a'', Str ''7'')]) =
     Inr (Obj [(''a'', Num 7)])"
    by code_simp
  have t7: "asHealingObject_shape [(''n'', asNumeric)] [(''n'', Str ''7'')] (Obj [(''n'', Str ''bad'')]) =
     Inr (Obj [(''n'', Str ''7'')])"
    by code_simp
  have t8: "asHealingObject_shape [(''n'', asNumeric)] [(''n'', Str ''7'')] (Obj [(''n'', Str ''7'')]) =
     Inr (Obj [(''n'', Num 7)])"
    by code_simp
  have r11: "asHealingObject_shape [(''name'', asString), (''age'', asNumber)]
       [(''age'', Num 0), (''name'', Str ''Unknown'')] Null =
     Inr (Obj [(''age'', Num 0), (''name'', Str ''Unknown'')])"
    by code_simp
  have r12: "asHealingObject_shape [(''name'', asString), (''age'', asNumber)]
       [(''age'', Num 0), (''name'', Str ''Unknown'')]
       (Obj [(''age'', Num 0), (''name'', Str ''Unknown'')]) =
     Inr (Obj [(''name'', Str ''Unknown''), (''age'', Num 0)])"
    by code_simp
  have r13: "asHealingObject_shape [(''name'', asString)]
       [(''name'', Str ''Unknown''), (''extra'', Num 1)] Null =
     Inr (Obj [(''name'', Str ''Unknown''), (''extra'', Num 1)])"
    by code_simp
  have r14: "asHealingObject_shape [(''name'', asString)]
       [(''name'', Str ''Unknown''), (''extra'', Num 1)]
       (Obj [(''name'', Str ''Unknown''), (''extra'', Num 1)]) =
     Inr (Obj [(''name'', Str ''Unknown'')])"
    by code_simp
  show ?thesis
    using r1 r2 r3 r4 r5 r6 r7 r8 t1 t2 t3 t4 t5 t6 t7 t8 r13 r14 r11 r12
    by (intro conjI)
qed

text \<open>
  Claim C7, amended. Let the element cleaner fix its own outputs. Then healing a healed
  value changes nothing
  \<^item> for \<open>asHealingArray\<close> without a fallback and for the key-value \<open>asHealingObject\<close>
    without a fallback, on every raw input;
  \<^item> for \<open>asHealingTuple\<close> on every raw input, when the cleaner returns every fallback
    entry it accepts unchanged;
  \<^item> for \<open>asHealingArray\<close> with a fallback list on a raw array, and for the key-value
    \<open>asHealingObject\<close> with a fallback map on a raw object, when no fallback entry is null
    or undefined and the cleaner returns every fallback entry it accepts unchanged;
  \<^item> for the shape mode, when each field's cleaner fixes its own outputs and returns the
    field's fallback value unchanged if it accepts it, and, for a raw input that is not
    an object, the fallback record has exactly the shape's fields in their enumeration
    order.

  For the two object modes the statement leaves out the keys whose default is read from
  \<open>Object.prototype\<close> (\<open>inherited_default\<close>): a key of the raw object, or a field of the
  shape, that the fallback lacks and that names a member of the prototype. It also leaves
  out a shape with a field named \<open>__proto__\<close>.
\<close>

theorem healing_idempotence:
  assumes "\<forall>x v. cleaner x = Inr v \<longrightarrow> cleaner v = Inr v"
  shows
    "(asHealingArray cleaner None raw = Inr out \<longrightarrow> asHealingArray cleaner None out = Inr out) \<and>
     (asMaybeObject cleaner None raw = Inr out \<longrightarrow> asMaybeObject cleaner None out = Inr out) \<and>
     ((\<forall>f \<in> set fallback. \<forall>v. cleaner f = Inr v \<longrightarrow> v = f) \<and>
      asHealingTuple cleaner fallback raw = Inr out \<longrightarrow>
        asHealingTuple cleaner fallback out = Inr out) \<and>
     ((\<forall>f \<in> set fallback. \<not> nullish f \<and> (\<forall>v. cleaner f = Inr v \<longrightarrow> v = f)) \<and>
      is_array raw \<and> asHealingArray cleaner (Some fallback) raw = Inr out \<longrightarrow>
        asHealingArray cleaner (Some fallback) out = Inr out) \<and>
     ((\<forall>(k, f) \<in> set fallback_map. \<not> nullish f \<and> (\<forall>v. cleaner f = Inr v \<longrightarrow> v = f)) \<and>
      (\<forall>k \<in> set (map fst raw_fields). \<not> inherited_default fallback_map k) \<and>
      asMaybeObject cleaner (Some fallback_map) (Obj raw_fields) = Inr out \<longrightarrow>
        asMaybeObject cleaner (Some fallback_map) out = Inr out) \<and>
     (''__proto__'' \<notin> set (map fst shape) \<and>
      (\<forall>(k, c) \<in> set (obj_assign [] shape).
         \<not> inherited_default fallback_record k \<and>
         (\<forall>x v. c x = Inr v \<longrightarrow> c v = Inr v) \<and>
         (\<forall>v. c (js_get (Obj fallback_record) k) = Inr v \<longrightarrow> v = js_get (Obj fallback_record) k)) \<and>
      (is_object raw \<or> map fst fallback_record = map fst (obj_assign [] shape)) \<and>
      asHealingObject_shape shape fallback_record raw = Inr out \<longrightarrow>
        asHealingObject_shape shape fallback_record out = Inr out)"
proof (intro conjI impI)
  assume "asHealingArray cleaner None raw = Inr out"
  with assms show "asHealingArray cleaner None out = Inr out"
    by (rule asHealingArray_idem_no_fallback)
next
  assume "asMaybeObject cleaner None raw = Inr out"
  with assms show "asMaybeObject cleaner None out = Inr out"
    by (rule asMaybeObject_idem_no_fallback)
next
  assume "(\<forall>f \<in> set fallback. \<forall>v. cleaner f = Inr v \<longrightarrow> v = f) \<and>
      asHealingTuple cleaner fallback raw = Inr out"
  then have "\<forall>f \<in> set fallback. \<forall>v. cleaner f = Inr v \<longrightarrow> v = f"
    and "asHealingTuple cleaner fallback raw = Inr out"
    by blast+
  with assms show "asHealingTuple cleaner fallback out = Inr out"
    by (rule asHealingTuple_idem)
next
  assume "(\<forall>f \<in> set fallback. \<not> nullish f \<and> (\<forall>v. cleaner f = Inr v \<longrightarrow> v = f)) \<and>
      is_array raw \<and> asHealingArray cleaner (Some fallback) raw = Inr out"
  then have "\<forall>f \<in> set fallback. \<not> nullish f \<and> (\<forall>v. cleaner f = Inr v \<longrightarrow> v = f)"
    and "is_array raw" and "asHealingArray cleaner (Some fallback) raw = Inr out"
    by blast+
  with assms show "asHealingArray cleaner (Some fallback) out = Inr out"
    by (rule asHealingArray_idem_fallback)
next
  assume a: "(\<forall>(k, f) \<in> set fallback_map. \<not> nullish f \<and> (\<forall>v. cleaner f = Inr v \<longrightarrow> v = f)) \<and>
      (\<forall>k \<in> set (map fst raw_fields). \<not> inherited_default fallback_map k) \<and>
      asMaybeObject cleaner (Some fallback_map) (Obj raw_fields) = Inr out"
  then have "\<forall>(k, f) \<in> set fallback_map. \<not> nullish f \<and> (\<forall>v. cleaner f = Inr v \<longrightarrow> v = f)"
    and "\<forall>k \<in> set (map fst raw_fields). \<not> inherited_default fallback_map k"
    and "asMaybeObject cleaner (Some fallback_map) (Obj raw_fields) = Inr out"
    by blast+
  with assms show "asMaybeObject cleaner (Some fallback_map) out = Inr out"
    by (rule asMaybeObject_idem_fallback)
next
  assume a: "''__proto__'' \<notin> set (map fst shape) \<and>
      (\<forall>(k, c) \<in> set (obj_assign [] shape).
         \<not> inherited_default fallback_record k \<and>
         (\<forall>x v. c x = Inr v \<longrightarrow> c v = Inr v) \<and>
         (\<forall>v. c (js_get (Obj fallback_record) k) = Inr v \<longrightarrow> v = js_get (Obj fallback_record) k)) \<and>
      (is_object raw \<or> map fst fallback_record = map fst (obj_assign [] shape)) \<and>
      asHealingObject_shape shape fallback_record raw = Inr out"
  then have "\<forall>(k, c) \<in> set (obj_assign [] shape).
         (\<forall>x v. c x = Inr v \<longrightarrow> c v = Inr v) \<and>
         (\<forall>v. c (js_get (Obj fallback_record) k) = Inr v \<longrightarrow> v = js_get (Obj fallback_record) k)"
    by blast
  moreover from a have "is_object raw \<or> map fst fallback_record = map fst (obj_assign [] shape)"
    and "asHealingObject_shape shape fallback_record raw = Inr out"
    by blast+
  ultimately show "asHealingObject_shape shape fallback_record out = Inr out"
    by (rule asHealingObject_shape_idem)
qed

text \<open>
  One run for each part, on inputs of the repository's tests and docstrings, with
  \<open>asNumber\<close> and \<open>asString\<close> as cleaners: both fix their outputs and accept the
  fallback entries unchanged.
\<close>

theorem healing_idempotence_witness:
  "asHealingArray asNumber None (Arr [Num 1, Str ''x'', Num 2]) = Inr (Arr [Num 1, Num 2]) \<and>
   asHealingArray asNumber None (Arr [Num 1, Num 2]) = Inr (Arr [Num 1, Num 2]) \<and>
   asMaybeObject asNumber None (Obj [(''a'', Num 1), (''b'', Str ''x'')]) = Inr (Obj [(''a'', Num 1)]) \<and>
   asMaybeObject asNumber None (Obj [(''a'', Num 1)]) = Inr (Obj [(''a'', Num 1)]) \<and>
   asHealingTuple asNumber [Num 0, Num 0, Num 0] (Arr [Num 1, Str ''x'', Num 3]) =
     Inr (Arr [Num 1, Num 0, Num 3]) \<and>
   asHealingTuple asNumber [Num 0, Num 0, Num 0] (Arr [Num 1, Num 0, Num 3]) =
     Inr (Arr [Num 1, Num 0, Num 3]) \<and>
   is_array (Arr [Num 10, Str ''invalid'', Num 20, Null]) \<and>
   asHealingArray asNumber (Some [Num 0, Num 1, Num 2]) (Arr [Num 10, Str ''invalid'', Num 20, Null]) =
     Inr (Arr [Num 10, Num 1, Num 20]) \<and>
   asHealingArray asNumber (Some [Num 0, Num 1, Num 2]) (Arr [Num 10, Num 1, Num 20]) =
     Inr (Arr [Num 10, Num 1, Num 20]) \<and>
   asMaybeObject asNumber (Some [(''age'', Num 0), (''count'', Num 0)])
       (Obj [(''age'', Num 25), (''count'', Str ''invalid''), (''extra'', Num 10)]) =
     Inr (Obj [(''age'', Num 25), (''count'', Num 0), (''extra'', Num 10)]) \<and>
   asMaybeObject asNumber (Some [(''age'', Num 0), (''count'', Num 0)])
       (Obj [(''age'', Num 25), (''count'', Num 0), (''extra'', Num 10)]) =
     Inr (Obj [(''age'', Num 25), (''count'', Num 0), (''extra'', Num 10)]) \<and>
   ''__proto__'' \<notin> set (map fst [(''name'', asString), (''age'', asNumber)]) \<and>
   is_object (Obj [(''name'', Str ''John'')]) \<and>
   asHealingObject_shape [(''name'', asString), (''age'', asNumber)]
       [(''name'', Str ''Unknown''), (''age'', Num 0)] (Obj [(''name'', Str ''John'')]) =
     Inr (Obj [(''name'', Str ''John''), (''age'', Num 0)]) \<and>
   asHealingObject_shape [(''name'', asString), (''age'', asNumber)]
       [(''name'', Str ''Unknown''), (''age'', Num 0)] (Obj [(''name'', Str ''John''), (''age'', Num 0)]) =
     Inr (Obj [(''name'', Str ''John''), (''age'', Num 0)])"
proof -
  have H: "\<forall>x v. asNumber x = Inr v \<longrightarrow> asNumber v = Inr v"
    by (rule asNumber_fixes)
  have a1: "asHealingArray asNumber None (Arr [Num 1, Str ''x'', Num 2]) = Inr (Arr [Num 1, Num 2])"
    by code_simp
  note part_a = healing_idempotence [OF H, where raw = "Arr [Num 1, Str ''x'', Num 2]"
      and out = "Arr [Num 1, Num 2]", THEN conjunct1, THEN mp]
  from a1 have a2: "asHealingArray asNumber None (Arr [Num 1, Num 2]) = Inr (Arr [Num 1, Num 2])"
    by (rule part_a)
  have b1: "asMaybeObject asNumber None (Obj [(''a'', Num 1), (''b'', Str ''x'')]) = Inr (Obj [(''a'', Num 1)])"
    by code_simp
  note part_b = healing_idempotence [OF H, where raw = "Obj [(''a'', Num 1), (''b'', Str ''x'')]"
      and out = "Obj [(''a'', Num 1)]", THEN conjunct2, THEN conjunct1, THEN mp]
  from b1 have b2: "asMaybeObject asNumber None (Obj [(''a'', Num 1)]) = Inr (Obj [(''a'', Num 1)])"
    by (rule part_b)
  have cF: "\<forall>f \<in> set [Num 0, Num 0, Num 0]. \<forall>v. asNumber f = Inr v \<longrightarrow> v = f"
    by (simp add: asNumber_def)
  have c1: "asHealingTuple asNumber [Num 0, Num 0, Num 0] (Arr [Num 1, Str ''x'', Num 3]) =
     Inr (Arr [Num 1, Num 0, Num 3])"
    by code_simp
  note part_c = healing_idempotence [OF H, where raw = "Arr [Num 1, Str ''x'', Num 3]"
      and out = "Arr [Num 1, Num 0, Num 3]" and fallback = "[Num 0, Num 0, Num 0]",
      THEN conjunct2, THEN conjunct2, THEN conjunct1, THEN mp]
  from cF c1 have c2: "asHealingTuple asNumber [Num 0, Num 0, Num 0] (Arr [Num 1, Num 0, Num 3]) =
     Inr (Arr [Num 1, Num 0, Num 3])"
    by (intro part_c conjI)
  have dF: "\<forall>f \<in> set [Num 0, Num 1, Num 2].
              \<not> nullish f \<and> (\<forall>v. asNumber f = Inr v \<longrightarrow> v = f)"
    by (simp add: asNumber_def nullish_def)
  have dA: "is_array (Arr [Num 10, Str ''invalid'', Num 20, Null])"
    by (simp add: is_array_def)
  have d1: "asHealingArray asNumber (Some [Num 0, Num 1, Num 2]) (Arr [Num 10, Str ''invalid'', Num 20, Null]) =
     Inr (Arr [Num 10, Num 1, Num 20])"
    by code_simp
  note part_d = healing_idempotence [OF H, where raw = "Arr [Num 10, Str ''invalid'', Num 20, Null]"
      and out = "Arr [Num 10, Num 1, Num 20]" and fallback = "[Num 0, Num 1, Num 2]",
      THEN conjunct2, THEN conjunct2, THEN conjunct2, THEN conjunct1, THEN mp]
  from dF dA d1
  have d2: "asHealingArray asNumber (Some [Num 0, Num 1, Num 2]) (Arr [Num 10, Num 1, Num 20]) =
     Inr (Arr [Num 10, Num 1, Num 20])"
    by (intro part_d conjI)
  have eF: "\<forall>(k, f) \<in> set [(''age'', Num 0), (''count'', Num 0)].
      \<not> nullish f \<and> (\<forall>v. asNumber f = Inr v \<longrightarrow> v = f)"
    by (simp add: asNumber_def nullish_def)
  have eN: "\<forall>k \<in> set (map fst [(''age'', Num 25), (''count'', Str ''invalid''), (''extra'', Num 10)]).
      \<not> inherited_default [(''age'', Num 0), (''count'', Num 0)] k"
  proof -
    have "\<not> inherited_default [(''age'', Num 0), (''count'', Num 0)] ''age''"
      and "\<not> inherited_default [(''age'', Num 0), (''count'', Num 0)] ''count''"
      and "\<not> inherited_default [(''age'', Num 0), (''count'', Num 0)] ''extra''"
      by code_simp+
    then show ?thesis by simp
  qed
  have e1: "asMaybeObject asNumber (Some [(''age'', Num 0), (''count'', Num 0)])
       (Obj [(''age'', Num 25), (''count'', Str ''invalid''), (''extra'', Num 10)]) =
     Inr (Obj [(''age'', Num 25), (''count'', Num 0), (''extra'', Num 10)])"
    by code_simp
  note part_e = healing_idempotence [OF H,
      where raw_fields = "[(''age'', Num 25), (''count'', Str ''invalid''), (''extra'', Num 10)]"
      and out = "Obj [(''age'', Num 25), (''count'', Num 0), (''extra'', Num 10)]"
      and fallback_map = "[(''age'', Num 0), (''count'', Num 0)]",
      THEN conjunct2, THEN conjunct2, THEN conjunct2, THEN conjunct2, THEN conjunct1, THEN mp]
  from eF eN e1
  have e2: "asMaybeObject asNumber (Some [(''age'', Num 0), (''count'', Num 0)])
       (Obj [(''age'', Num 25), (''count'', Num 0), (''extra'', Num 10)]) =
     Inr (Obj [(''age'', Num 25), (''count'', Num 0), (''extra'', Num 10)])"
    by (intro part_e conjI)
  have fP: "''__proto__'' \<notin> set (map fst [(''name'', asString), (''age'', asNumber)])"
    by simp
  have fS: "obj_assign [] [(''name'', asString), (''age'', asNumber)] =
              [(''name'', asString), (''age'', asNumber)]"
    by (rule obj_assign_self) code_simp
  have g1: "js_get (Obj [(''name'', Str ''Unknown''), (''age'', Num 0)]) ''name'' = Str ''Unknown''"
    and g2: "js_get (Obj [(''name'', Str ''Unknown''), (''age'', Num 0)]) ''age'' = Num 0"
    by (simp_all add: js_get_def)
  have fH: "\<forall>(k, c) \<in> set (obj_assign [] [(''name'', asString), (''age'', asNumber)]).
      \<not> inherited_default [(''name'', Str ''Unknown''), (''age'', Num 0)] k \<and>
      (\<forall>x v. c x = Inr v \<longrightarrow> c v = Inr v) \<and>
      (\<forall>v. c (js_get (Obj [(''name'', Str ''Unknown''), (''age'', Num 0)]) k) = Inr v \<longrightarrow>
           v = js_get (Obj [(''name'', Str ''Unknown''), (''age'', Num 0)]) k)"
  proof -
    have "\<not> inherited_default [(''name'', Str ''Unknown''), (''age'', Num 0)] ''name''"
      and "\<not> inherited_default [(''name'', Str ''Unknown''), (''age'', Num 0)] ''age''"
      by (simp_all add: inherited_default_def)
    moreover have "\<forall>v. asString (Str ''Unknown'') = Inr v \<longrightarrow> v = Str ''Unknown''"
      and "\<forall>v. asNumber (Num 0) = Inr v \<longrightarrow> v = Num 0"
      by (simp_all add: asString_def asNumber_def)
    ultimately show ?thesis
      unfolding fS using asString_fixes asNumber_fixes by (simp only: g1 g2 list.set ball_simps prod.case) simp
  qed
  have fO: "is_object (Obj [(''name'', Str ''John'')])"
    by (simp add: is_object_def)
  have f1: "asHealingObject_shape [(''name'', asString), (''age'', asNumber)]
       [(''name'', Str ''Unknown''), (''age'', Num 0)] (Obj [(''name'', Str ''John'')]) =
     Inr (Obj [(''name'', Str ''John''), (''age'', Num 0)])"
    by code_simp
  note part_f = healing_idempotence [OF H, where raw = "Obj [(''name'', Str ''John'')]"
      and out = "Obj [(''name'', Str ''John''), (''age'', Num 0)]"
      and shape = "[(''name'', asString), (''age'', asNumber)]"
      and fallback_record = "[(''name'', Str ''Unknown''), (''age'', Num 0)]",
      THEN conjunct2, THEN conjunct2, THEN conjunct2, THEN conjunct2, THEN conjunct2, THEN mp]
  from fP fH fO f1
  have f2: "asHealingObject_shape [(''name'', asString), (''age'', asNumber)]
       [(''name'', Str ''Unknown''), (''age'', Num 0)] (Obj [(''name'', Str ''John''), (''age'', Num 0)]) =
     Inr (Obj [(''name'', Str ''John''), (''age'', Num 0)])"
    by (intro part_f conjI disjI1)
  show ?thesis
    using a1 a2 b1 b2 c1 c2 dA d1 d2 e1 e2 fP fO f1 f2
    by (intro conjI)
qed

end
